theory Spec2Isabelle
  imports Complex_Main
begin

section \<open>Arrays and errors\<close>

text \<open>
  The jit-compiled routines of GEModel.py work on numpy arrays of floats and of 64-bit
  integers.  Floats are modelled by \<^typ>\<open>real\<close> (exact arithmetic), one-dimensional arrays
  by lists, two-dimensional arrays by lists of rows, indices by \<^typ>\<open>int\<close>.
  A read or write outside an array is the error \<open>IndexError\<close>, a float division by zero
  is \<open>ZeroDivisionError\<close>, a matrix product or an elementwise operation on mismatched
  shapes and the maximum of an empty array are \<open>ValueError\<close>, and the exception of the
  two fixed-point loops is \<open>TooManyIterations\<close>.  The \<open>prange\<close> loops are run in index
  order: their passes read shared arrays and write different rows.
\<close>

datatype error = IndexError | ZeroDivisionError | ValueError | TooManyIterations

text \<open>\<open>x[i]\<close>: a negative index counts from the end.\<close>

definition getitem :: "'a list \<Rightarrow> int \<Rightarrow> error + 'a" where
  "getitem x i =
     (if 0 \<le> i \<and> i < int (length x) then Inr (x ! nat i)
      else if - int (length x) \<le> i \<and> i < 0 then Inr (x ! nat (int (length x) + i))
      else Inl IndexError)"

section \<open>binary_search\<close>

text \<open>
  The loop of \<open>binary_search\<close>.  \<open>half\<close> is \<open>Nx//2\<close> before the loop and at the end
  of every pass, so the loop test reads it from the current \<open>Nx\<close>.
\<close>

function binary_search_loop :: "real list \<Rightarrow> real \<Rightarrow> int \<Rightarrow> int \<Rightarrow> error + int" where
  "binary_search_loop x xi imin Nx =
     (if Nx div 2 \<noteq> 0 then
        (case getitem x (imin + Nx div 2) of
           Inl e \<Rightarrow> Inl e
         | Inr v \<Rightarrow>
             binary_search_loop x xi (if v \<le> xi then imin + Nx div 2 else imin)
               (Nx - Nx div 2))
      else Inr imin)"
  by pat_completeness auto
termination
  by (relation "measure (\<lambda>(x, xi, imin, Nx). nat \<bar>Nx\<bar>)") auto

declare binary_search_loop.simps [simp del]

definition binary_search :: "int \<Rightarrow> real list \<Rightarrow> real \<Rightarrow> error + int" where
  "binary_search imin x xi =
     (case getitem x 0 of
        Inl e \<Rightarrow> Inl e
      | Inr x0 \<Rightarrow>
          if xi \<le> x0 then Inr 0
          else
            (case getitem x (int (length x) - 2) of
               Inl e \<Rightarrow> Inl e
             | Inr xl \<Rightarrow>
                 if xi \<ge> xl then Inr (int (length x) - 2)
                 else binary_search_loop x xi imin (int (length x))))"


section \<open>Array operations\<close>

text \<open>The position an index denotes in an axis of length \<open>n\<close>.\<close>

definition np_index :: "nat \<Rightarrow> int \<Rightarrow> error + nat" where
  "np_index n i =
     (if 0 \<le> i \<and> i < int n then Inr (nat i)
      else if - int n \<le> i \<and> i < 0 then Inr (nat (int n + i))
      else Inl IndexError)"

text \<open>\<open>A[i,j]\<close>, \<open>A[i,j] = v\<close> and \<open>A[i,j] += v\<close>.\<close>

definition getitem2 :: "'a list list \<Rightarrow> int \<Rightarrow> int \<Rightarrow> error + 'a" where
  "getitem2 A i j = (case getitem A i of Inl e \<Rightarrow> Inl e | Inr row \<Rightarrow> getitem row j)"

definition setitem2 :: "'a list list \<Rightarrow> int \<Rightarrow> int \<Rightarrow> 'a \<Rightarrow> error + 'a list list" where
  "setitem2 A i j v =
     (case np_index (length A) i of
        Inl e \<Rightarrow> Inl e
      | Inr i' \<Rightarrow>
          (case np_index (length (A ! i')) j of
             Inl e \<Rightarrow> Inl e
           | Inr j' \<Rightarrow> Inr (A[i' := (A ! i')[j' := v]])))"

definition iadd2 :: "real list list \<Rightarrow> int \<Rightarrow> int \<Rightarrow> real \<Rightarrow> error + real list list" where
  "iadd2 A i j v =
     (case getitem2 A i j of Inl e \<Rightarrow> Inl e | Inr old \<Rightarrow> setitem2 A i j (old + v))"

text \<open>\<open>np.zeros(D.shape)\<close>.\<close>

definition zeros_like :: "real list list \<Rightarrow> real list list" where
  "zeros_like D = map (map (\<lambda>_. 0)) D"

text \<open>The number of columns of a two-dimensional array.\<close>

definition ncols :: "'a list list \<Rightarrow> nat" where
  "ncols A = (case A of [] \<Rightarrow> 0 | row # _ \<Rightarrow> length row)"

text \<open>\<open>A @ B\<close> for two-dimensional arrays: every row of \<open>A\<close> must be as long as \<open>B\<close> has rows.\<close>

definition matmul :: "real list list \<Rightarrow> real list list \<Rightarrow> error + real list list" where
  "matmul A B =
     (if list_all (\<lambda>row. length row = length B) A
      then Inr (map (\<lambda>row. map (\<lambda>j. sum_list (map (\<lambda>k. row ! k * B ! k ! j) [0..<length B]))
                              [0..<ncols B]) A)
      else Inl ValueError)"

text \<open>\<open>A.T\<close>.\<close>

definition np_T :: "'a list list \<Rightarrow> 'a list list" where
  "np_T A = map (\<lambda>j. map (\<lambda>i. A ! i ! j) [0..<length A]) [0..<ncols A]"

text \<open>\<open>np.max(np.abs(A - B))\<close> for two arrays of the same shape.\<close>

definition np_max :: "real list \<Rightarrow> error + real" where
  "np_max xs = (case xs of [] \<Rightarrow> Inl ValueError | x # ys \<Rightarrow> Inr (fold max ys x))"

definition max_abs_diff :: "real list list \<Rightarrow> real list list \<Rightarrow> error + real" where
  "max_abs_diff A B = np_max (concat (map2 (map2 (\<lambda>x y. \<bar>x - y\<bar>)) A B))"

text \<open>A \<open>for\<close> loop over a range whose body may raise.\<close>

fun foldM :: "('a \<Rightarrow> 's \<Rightarrow> error + 's) \<Rightarrow> 'a list \<Rightarrow> 's \<Rightarrow> error + 's" where
  "foldM f [] s = Inr s"
| "foldM f (x # xs) s = (case f x s of Inl e \<Rightarrow> Inl e | Inr s' \<Rightarrow> foldM f xs s')"

section \<open>The model's parameters and simulation arrays\<close>

record par =
  sigma :: real
  beta :: real
  Z :: real
  alpha :: real
  delta :: real
  Ne :: nat
  Na :: nat
  max_iter_solve :: int
  max_iter_simulate :: int
  solve_tol :: real
  simulate_tol :: real
  a_grid :: "real list"
  e_grid :: "real list"
  e_trans :: "real list list"

text \<open>The fields \<open>i\<close>, \<open>w\<close> and \<open>D\<close> of \<open>sim\<close>.\<close>

record sim =
  sim_i :: "int list list"
  sim_w :: "real list list"
  sim_D :: "real list list"

section \<open>time_iteration\<close>

text \<open>
  \<open>time_iteration\<close> receives its arrays by reference and writes \<open>a\<close>, \<open>c\<close> and \<open>Va\<close> in
  place; the steady-state solver passes the same array as \<open>Va_p\<close> and as \<open>Va\<close>.  The
  arrays therefore live in a store, and the arguments \<open>Va_p\<close>, \<open>Va\<close>, \<open>a\<close>, \<open>c\<close>, \<open>m\<close> are
  references into it.
\<close>

type_synonym ref = nat

type_synonym store = "ref \<Rightarrow> real list list"

text \<open>
  \<open>linear_interp.interp_1d_vec(grid1, value, xi1, yi)\<close> belongs to the library \<open>consav\<close>
  and is not among the repository's sources.  It fills \<open>yi[k]\<close> with the interpolated
  value at the point \<open>xi1[k]\<close>.  The rule that gives this value from \<open>grid1\<close>, \<open>value\<close>
  and the point is a parameter \<open>interp\<close> of the model.
\<close>

type_synonym interp = "real list \<Rightarrow> real list \<Rightarrow> real \<Rightarrow> real"

definition interp_1d_vec :: "interp \<Rightarrow> real list \<Rightarrow> real list \<Rightarrow> real list \<Rightarrow> real list" where
  "interp_1d_vec interp grid1 value xi1 = map (interp grid1 value) xi1"

text \<open>\<open>A[i] = row\<close> for a row of the length of the rows of \<open>A\<close>.\<close>

definition setrow :: "real list list \<Rightarrow> int \<Rightarrow> real list \<Rightarrow> error + real list list" where
  "setrow A i row =
     (case np_index (length A) i of
        Inl e \<Rightarrow> Inl e
      | Inr i' \<Rightarrow> if length row = length (A ! i') then Inr (A[i' := row]) else Inl ValueError)"

text \<open>\<open>x + y\<close> and \<open>x - y\<close> for one-dimensional arrays of the same length (broadcasting
  of an array of length 1 is left out).\<close>

definition arr_add :: "real list \<Rightarrow> real list \<Rightarrow> error + real list" where
  "arr_add x y = (if length x = length y then Inr (map2 (+) x y) else Inl ValueError)"

definition arr_sub :: "real list \<Rightarrow> real list \<Rightarrow> error + real list" where
  "arr_sub x y = (if length x = length y then Inr (map2 (-) x y) else Inl ValueError)"

text \<open>
  The body of the loop over \<open>i_e\<close>.  The power \<open>x ** y\<close> of floats is \<^term>\<open>x powr y\<close>,
  \<open>np.fmax(x, 0)\<close> is \<^term>\<open>max x 0\<close>.
\<close>

definition egm_row ::
  "interp \<Rightarrow> par \<Rightarrow> real \<Rightarrow> real list list \<Rightarrow> ref \<Rightarrow> ref \<Rightarrow> ref \<Rightarrow> ref \<Rightarrow> nat \<Rightarrow> store
     \<Rightarrow> error + store" where
  "egm_row interp par r marg_u_plus Va a c m i_e h =
     (case getitem marg_u_plus (int i_e) of
        Inl e \<Rightarrow> Inl e
      | Inr mu \<Rightarrow>
     if sigma par = 0 then Inl ZeroDivisionError
     else
     (case arr_add (map (\<lambda>x. x powr (- 1 / sigma par)) mu) (a_grid par) of
        Inl e \<Rightarrow> Inl e
      | Inr m_endo \<Rightarrow>
     (case getitem (h m) (int i_e) of
        Inl e \<Rightarrow> Inl e
      | Inr xi1 \<Rightarrow>
     (case setrow (h a) (int i_e) (interp_1d_vec interp m_endo (a_grid par) xi1) of
        Inl e \<Rightarrow> Inl e
      | Inr a1 \<Rightarrow>
     (case getitem2 a1 (int i_e) 0 of
        Inl e \<Rightarrow> Inl e
      | Inr a0 \<Rightarrow>
     (case setitem2 a1 (int i_e) 0 (max a0 0) of
        Inl e \<Rightarrow> Inl e
      | Inr a2 \<Rightarrow>
     (case getitem ((h(a := a2)) m) (int i_e) of
        Inl e \<Rightarrow> Inl e
      | Inr m_row \<Rightarrow>
     (case getitem a2 (int i_e) of
        Inl e \<Rightarrow> Inl e
      | Inr a_row \<Rightarrow>
     (case arr_sub m_row a_row of
        Inl e \<Rightarrow> Inl e
      | Inr c_row \<Rightarrow>
     (case setrow ((h(a := a2)) c) (int i_e) c_row of
        Inl e \<Rightarrow> Inl e
      | Inr c1 \<Rightarrow>
     (case getitem ((h(a := a2, c := c1)) c) (int i_e) of
        Inl e \<Rightarrow> Inl e
      | Inr c_new \<Rightarrow>
     (case setrow ((h(a := a2, c := c1)) Va) (int i_e)
             (map (\<lambda>x. (1 + r) * x powr (- sigma par)) c_new) of
        Inl e \<Rightarrow> Inl e
      | Inr Va1 \<Rightarrow> Inr (h(a := a2, c := c1, Va := Va1))))))))))))))"

definition time_iteration ::
  "interp \<Rightarrow> par \<Rightarrow> real \<Rightarrow> real \<Rightarrow> ref \<Rightarrow> ref \<Rightarrow> ref \<Rightarrow> ref \<Rightarrow> ref \<Rightarrow> store \<Rightarrow> error + store" where
  "time_iteration interp par r w Va_p Va a c m h =
     (case matmul (map (map (\<lambda>x. beta par * x)) (e_trans par)) (h Va_p) of
        Inl e \<Rightarrow> Inl e
      | Inr marg_u_plus \<Rightarrow>
          foldM (egm_row interp par r marg_u_plus Va a c m) [0..<Ne par] h)"

section \<open>solve_household_ss\<close>

definition implied_w :: "par \<Rightarrow> real \<Rightarrow> real" where
  "implied_w par r =
     Z par * (1 - alpha par) * ((r + delta par) / (Z par * alpha par)) powr (alpha par / (alpha par - 1))"

text \<open>The references held by the fields \<open>a\<close>, \<open>m\<close>, \<open>c\<close> and \<open>Va\<close> of \<open>sol\<close>.\<close>

record sol =
  sol_a :: ref
  sol_m :: ref
  sol_c :: ref
  sol_Va :: ref

text \<open>
  The \<open>while True\<close> loop of \<open>solve_household_ss\<close>, entered with the counter \<open>it\<close>.
\<close>

function solve_household_ss_loop ::
  "interp \<Rightarrow> par \<Rightarrow> real \<Rightarrow> real \<Rightarrow> sol \<Rightarrow> int \<Rightarrow> store \<Rightarrow> error + (int \<times> store)" where
  "solve_household_ss_loop interp par r w sl it h =
     (case time_iteration interp par r w (sol_Va sl) (sol_Va sl) (sol_a sl) (sol_c sl) (sol_m sl) h of
        Inl e \<Rightarrow> Inl e
      | Inr h' \<Rightarrow>
          (case max_abs_diff (h' (sol_a sl)) (h (sol_a sl)) of
             Inl e \<Rightarrow> Inl e
           | Inr d \<Rightarrow>
               if d < solve_tol par then Inr (it, h')
               else if it + 1 > max_iter_solve par then Inl TooManyIterations
               else solve_household_ss_loop interp par r w sl (it + 1) h'))"
  by pat_completeness auto
termination
  by (relation "measure (\<lambda>(interp, par, r, w, sl, it, h). nat (max_iter_solve par - it))") auto

declare solve_household_ss_loop.simps [simp del]

text \<open>
  \<open>solve_household_ss\<close>.  \<open>create_grids\<close> calls library routines for the grids, which
  are taken from \<open>par\<close>; the optional argument \<open>Va\<close> is \<open>None\<close> or an array.
\<close>

definition solve_household_ss ::
  "interp \<Rightarrow> par \<Rightarrow> real \<Rightarrow> real list list option \<Rightarrow> sol \<Rightarrow> store \<Rightarrow> error + (int \<times> store)" where
  "solve_household_ss interp par r Va sl h =
     (let w = implied_w par r;
          m = map (\<lambda>e. map (\<lambda>x. (1 + r) * x + w * e) (a_grid par)) (e_grid par);
          h1 = h(sol_m sl := m);
          h2 = h1(sol_Va sl :=
                 (case Va of
                    None \<Rightarrow> map (map (\<lambda>x. (1 + r) * (0.1 * x) powr (- sigma par))) (h1 (sol_m sl))
                  | Some V \<Rightarrow> V))
      in solve_household_ss_loop interp par r w sl 0 h2)"

section \<open>find_i_and_w\<close>

text \<open>The body of the two loops of \<open>find_i_and_w\<close>, for the cell \<open>(i_e, i_a)\<close>.\<close>

definition find_i_and_w_cell :: "par \<Rightarrow> real list list \<Rightarrow> nat \<Rightarrow> nat \<Rightarrow> sim \<Rightarrow> error + sim" where
  "find_i_and_w_cell par a i_e i_a sm =
     (case getitem2 a (int i_e) (int i_a) of
        Inl e \<Rightarrow> Inl e
      | Inr a_ \<Rightarrow>
     (case binary_search 0 (a_grid par) a_ of
        Inl e \<Rightarrow> Inl e
      | Inr i_ \<Rightarrow>
     (case setitem2 (sim_i sm) (int i_e) (int i_a) i_ of
        Inl e \<Rightarrow> Inl e
      | Inr si \<Rightarrow>
     (case getitem (a_grid par) (i_ + 1) of
        Inl e \<Rightarrow> Inl e
      | Inr g1 \<Rightarrow>
     (case getitem (a_grid par) i_ of
        Inl e \<Rightarrow> Inl e
      | Inr g0 \<Rightarrow>
          if g1 - g0 = 0 then Inl ZeroDivisionError
          else
            (case setitem2 (sim_w sm) (int i_e) (int i_a) ((g1 - a_) / (g1 - g0)) of
               Inl e \<Rightarrow> Inl e
             | Inr sw \<Rightarrow> Inr (sm\<lparr>sim_i := si, sim_w := sw\<rparr>)))))))"

definition find_i_and_w :: "par \<Rightarrow> sim \<Rightarrow> real list list \<Rightarrow> error + sim" where
  "find_i_and_w par sm a =
     foldM (\<lambda>i_e. foldM (\<lambda>i_a. find_i_and_w_cell par a i_e i_a) [0..<Na par]) [0..<Ne par] sm"

section \<open>simulate\<close>

text \<open>The body of the two loops of \<open>simulate\<close>, for the cell \<open>(i_e, i_a)\<close>.\<close>

definition simulate_cell ::
  "sim \<Rightarrow> real list list \<Rightarrow> nat \<Rightarrow> nat \<Rightarrow> real list list \<Rightarrow> error + real list list" where
  "simulate_cell sm D i_e i_a Dnew =
     (case getitem2 D (int i_e) (int i_a) of
        Inl e \<Rightarrow> Inl e
      | Inr D_ \<Rightarrow>
     (case getitem2 (sim_w sm) (int i_e) (int i_a) of
        Inl e \<Rightarrow> Inl e
      | Inr w \<Rightarrow>
     (case getitem2 (sim_i sm) (int i_e) (int i_a) of
        Inl e \<Rightarrow> Inl e
      | Inr i \<Rightarrow>
     (case iadd2 Dnew (int i_e) i (D_ * w) of
        Inl e \<Rightarrow> Inl e
      | Inr Dnew1 \<Rightarrow> iadd2 Dnew1 (int i_e) (i + 1) (D_ * (1 - w))))))"

definition simulate :: "par \<Rightarrow> sim \<Rightarrow> real list list \<Rightarrow> real list list \<Rightarrow> error + real list list" where
  "simulate par sm e_trans_T D =
     (case foldM (\<lambda>i_e. foldM (\<lambda>i_a. simulate_cell sm D i_e i_a) [0..<Na par]) [0..<Ne par]
             (zeros_like D) of
        Inl e \<Rightarrow> Inl e
      | Inr Dnew \<Rightarrow> matmul e_trans_T Dnew)"

section \<open>simulate_ss\<close>

text \<open>
  The \<open>while True\<close> loop of \<open>simulate_ss\<close>, entered with the counter \<open>it\<close> and the
  distribution \<open>D\<close>.  On \<open>break\<close> it leaves \<open>D\<close>, not \<open>Dnew\<close>, to be saved.
\<close>

function simulate_ss_loop ::
  "par \<Rightarrow> sim \<Rightarrow> real list list \<Rightarrow> int \<Rightarrow> real list list \<Rightarrow> error + (int \<times> real list list)" where
  "simulate_ss_loop par sm e_trans_T it D =
     (case simulate par sm e_trans_T D of
        Inl e \<Rightarrow> Inl e
      | Inr Dnew \<Rightarrow>
          (case max_abs_diff Dnew D of
             Inl e \<Rightarrow> Inl e
           | Inr d \<Rightarrow>
               if d < simulate_tol par then Inr (it, D)
               else if it + 1 > max_iter_simulate par then Inl TooManyIterations
               else simulate_ss_loop par sm e_trans_T (it + 1) Dnew))"
  by pat_completeness auto
termination
  by (relation "measure (\<lambda>(par, sm, e_trans_T, it, D). nat (max_iter_simulate par - it))") auto

declare simulate_ss_loop.simps [simp del]

text \<open>\<open>simulate_ss\<close>, with the array \<open>sol.a\<close> as its argument \<open>a\<close>.\<close>

definition simulate_ss :: "par \<Rightarrow> real list list \<Rightarrow> sim \<Rightarrow> real list list \<Rightarrow> error + (int \<times> sim)" where
  "simulate_ss par a sm D =
     (case find_i_and_w par sm a of
        Inl e \<Rightarrow> Inl e
      | Inr sm1 \<Rightarrow>
          (case simulate_ss_loop par sm1 (np_T (e_trans par)) 0 D of
             Inl e \<Rightarrow> Inl e
           | Inr (it, D') \<Rightarrow> Inr (it, sm1\<lparr>sim_D := D'\<rparr>)))"

section \<open>Well-formed arrays\<close>

text \<open>An array of shape \<open>(n, m)\<close>; \<open>np.sum\<close> of a two-dimensional array; an array without
  negative entries; a matrix whose rows are probability vectors.\<close>

definition shape :: "nat \<Rightarrow> nat \<Rightarrow> 'a list list \<Rightarrow> bool" where
  "shape n m A = (length A = n \<and> list_all (\<lambda>row. length row = m) A)"

definition np_sum :: "real list list \<Rightarrow> real" where
  "np_sum A = sum_list (map sum_list A)"

definition nonneg :: "real list list \<Rightarrow> bool" where
  "nonneg A = list_all (list_all (\<lambda>x. 0 \<le> x)) A"


section \<open>Example parameters\<close>

text \<open>The baseline parameters of \<open>setup\<close> on the three-point grid \<open>[0, 1, 5]\<close> with one
  income state, and the same with two income states.\<close>

definition par_toy :: par where
  "par_toy = \<lparr>sigma = 1, beta = 95 / 100, Z = 1, alpha = 11 / 100, delta = 25 / 1000,
      Ne = 1, Na = 3, max_iter_solve = 5000, max_iter_simulate = 5000,
      solve_tol = 1 / 10 ^ 10, simulate_tol = 1 / 10 ^ 10,
      a_grid = [0, 1, 5], e_grid = [1], e_trans = [[1]]\<rparr>"



section \<open>Loop invariants\<close>

text \<open>The weight formula of \<open>find_i_and_w\<close>; what \<open>find_i_and_w\<close> has stored in a cell it
  has passed; the invariant of its two loops.\<close>

definition weight_of :: "real list \<Rightarrow> int \<Rightarrow> real \<Rightarrow> real" where
  "weight_of grid i av = (grid ! nat (i + 1) - av) / (grid ! nat (i + 1) - grid ! nat i)"

definition cell_ok :: "par \<Rightarrow> real list list \<Rightarrow> sim \<Rightarrow> nat \<Rightarrow> nat \<Rightarrow> bool" where
  "cell_ok par a sm e ia =
     (binary_search 0 (a_grid par) (a ! e ! ia) = Inr (sim_i sm ! e ! ia)
      \<and> a_grid par ! nat (sim_i sm ! e ! ia + 1) \<noteq> a_grid par ! nat (sim_i sm ! e ! ia)
      \<and> sim_w sm ! e ! ia = weight_of (a_grid par) (sim_i sm ! e ! ia) (a ! e ! ia))"

definition fiw_inv :: "par \<Rightarrow> real list list \<Rightarrow> sim \<Rightarrow> nat \<Rightarrow> nat \<Rightarrow> sim \<Rightarrow> bool" where
  "fiw_inv par a sm0 ke ka sm =
     (shape (Ne par) (Na par) (sim_i sm) \<and> shape (Ne par) (Na par) (sim_w sm)
      \<and> sim_D sm = sim_D sm0
      \<and> (\<forall>e < Ne par. \<forall>ia < Na par. e < ke \<or> (e = ke \<and> ia < ka) \<longrightarrow> cell_ok par a sm e ia))"

text \<open>The two updates \<open>simulate\<close> makes to a row of \<open>Dnew\<close> for one cell, and the invariant
  of its two loops: the mass moved so far is the mass of the cells passed.\<close>

definition scatter :: "real list \<Rightarrow> int \<Rightarrow> real \<Rightarrow> real \<Rightarrow> real list" where
  "scatter row i m w = (row[nat i := row ! nat i + m * w])[nat (i + 1) := row ! nat (i + 1) + m * (1 - w)]"

definition sc_inv ::
  "nat \<Rightarrow> nat \<Rightarrow> bool \<Rightarrow> real list list \<Rightarrow> nat \<Rightarrow> nat \<Rightarrow> real list list \<Rightarrow> bool" where
  "sc_inv n m P D ke ka Dn =
     (shape n m Dn \<and> np_sum Dn = np_sum (take ke D) + sum_list (take ka (D ! ke))
      \<and> (P \<longrightarrow> nonneg Dn))"

section \<open>The step of the endogenous grid method, row by row\<close>

text \<open>
  The arrays one pass of the loop of \<open>time_iteration\<close> computes for the income state
  \<open>i_e\<close>, as functions of the row \<open>mu = marg_u_plus[i_e]\<close> and of the row \<open>m[i_e]\<close>:
  the endogenous grid \<open>m_endo\<close>, the interpolated row, the row of assets after
  \<open>a[i_e,0] = fmax(a[i_e,0], 0)\<close>, the row of consumption and the row of marginal values.
\<close>

definition m_endo_row :: "par \<Rightarrow> real list \<Rightarrow> real list" where
  "m_endo_row par mu = map2 (+) (map (\<lambda>x. x powr (- 1 / sigma par)) mu) (a_grid par)"

definition interp_row :: "interp \<Rightarrow> par \<Rightarrow> real list \<Rightarrow> real list \<Rightarrow> real list" where
  "interp_row interp par mu m_row = map (interp (m_endo_row par mu) (a_grid par)) m_row"

definition assets_row :: "interp \<Rightarrow> par \<Rightarrow> real list \<Rightarrow> real list \<Rightarrow> real list" where
  "assets_row interp par mu m_row =
     (interp_row interp par mu m_row)[0 := max (interp_row interp par mu m_row ! 0) 0]"

definition consumption_row :: "real list \<Rightarrow> real list \<Rightarrow> real list" where
  "consumption_row m_row a_row = map2 (-) m_row a_row"

definition Va_row :: "par \<Rightarrow> real \<Rightarrow> real list \<Rightarrow> real list" where
  "Va_row par r c_row = map (\<lambda>x. (1 + r) * x powr (- sigma par)) c_row"

text \<open>
  The step in the words of the specification, with its borrowing constraint:
  \<open>marg_u_plus = beta \<cdot> (transition @ Va_p)\<close>, and for every income state the assets, the
  consumption and the new marginal value.
\<close>

definition marg_u_plus :: "par \<Rightarrow> real list list \<Rightarrow> real list list" where
  "marg_u_plus par Va_p =
     map (\<lambda>row. map (\<lambda>j. beta par * sum_list (map (\<lambda>k. row ! k * Va_p ! k ! j) [0..<length Va_p]))
                    [0..<ncols Va_p]) (e_trans par)"

definition egm_assets :: "interp \<Rightarrow> par \<Rightarrow> real list list \<Rightarrow> real list list \<Rightarrow> real list list" where
  "egm_assets interp par Va_p m =
     map (\<lambda>e. assets_row interp par (marg_u_plus par Va_p ! e) (m ! e)) [0..<Ne par]"

definition egm_consumption :: "interp \<Rightarrow> par \<Rightarrow> real list list \<Rightarrow> real list list \<Rightarrow> real list list" where
  "egm_consumption interp par Va_p m =
     map (\<lambda>e. consumption_row (m ! e) (egm_assets interp par Va_p m ! e)) [0..<Ne par]"

definition egm_Va :: "interp \<Rightarrow> par \<Rightarrow> real \<Rightarrow> real list list \<Rightarrow> real list list \<Rightarrow> real list list" where
  "egm_Va interp par r Va_p m =
     map (\<lambda>e. Va_row par r (egm_consumption interp par Va_p m ! e)) [0..<Ne par]"

text \<open>The invariant of the loop of \<open>time_iteration\<close>: the rows below \<open>k\<close> are final, the
  others untouched.\<close>

definition egm_inv ::
  "interp \<Rightarrow> par \<Rightarrow> real \<Rightarrow> real list list \<Rightarrow> ref \<Rightarrow> ref \<Rightarrow> ref \<Rightarrow> ref \<Rightarrow> store \<Rightarrow> nat \<Rightarrow> store \<Rightarrow> bool" where
  "egm_inv interp par r Va_p Va a c m h k h' =
     ((\<forall>p. p \<noteq> a \<and> p \<noteq> c \<and> p \<noteq> Va \<longrightarrow> h' p = h p)
      \<and> shape (Ne par) (Na par) (h' a) \<and> shape (Ne par) (Na par) (h' c)
      \<and> shape (Ne par) (Na par) (h' Va)
      \<and> (\<forall>e < Ne par. h' a ! e = (if e < k then egm_assets interp par Va_p (h m) ! e else h a ! e))
      \<and> (\<forall>e < Ne par. h' c ! e = (if e < k then egm_consumption interp par Va_p (h m) ! e else h c ! e))
      \<and> (\<forall>e < Ne par. h' Va ! e = (if e < k then egm_Va interp par r Va_p (h m) ! e else h Va ! e)))"

text \<open>
  The rule of \<open>consav\<close>'s linear interpolation, used to run the step on concrete arrays:
  the interval is located by the same \<open>binary_search\<close>, and the value is read off the
  straight line through the two points of the interval, inside the grid and beyond
  its ends.  For a grid of at least two points the search always returns an index.
\<close>

definition interp_1d :: interp where
  "interp_1d grid1 value xi =
     (case binary_search 0 grid1 xi of
        Inl e \<Rightarrow> 0
      | Inr j \<Rightarrow>
          (value ! nat j * (grid1 ! nat (j + 1) - xi) + value ! nat (j + 1) * (xi - grid1 ! nat j))
          / (grid1 ! nat (j + 1) - grid1 ! nat j))"

text \<open>A store for the three-point grid: \<open>Va_p\<close> at 0, \<open>Va\<close> at 1, \<open>a\<close> at 2, \<open>c\<close> at 3 and the
  cash-on-hand \<open>m = 1.05 \<cdot> a_grid + 1\<close> at 4.\<close>

definition store_toy :: store where
  "store_toy = (\<lambda>_. [])(0 := [[5 / 19, 5 / 38, 5 / 76]], 1 := [[0, 0, 0]], 2 := [[0, 0, 0]],
      3 := [[0, 0, 0]], 4 := [[1, 41 / 20, 25 / 4]])"

text \<open>
  The step without the borrowing constraint, as C2 words it: the assets are the
  interpolated values themselves, consumption and marginal value follow from them.
\<close>

definition claimed_assets :: "interp \<Rightarrow> par \<Rightarrow> real list list \<Rightarrow> real list list \<Rightarrow> real list list" where
  "claimed_assets interp par Va_p m =
     map (\<lambda>e. interp_row interp par (marg_u_plus par Va_p ! e) (m ! e)) [0..<Ne par]"

definition claimed_consumption :: "interp \<Rightarrow> par \<Rightarrow> real list list \<Rightarrow> real list list \<Rightarrow> real list list" where
  "claimed_consumption interp par Va_p m =
     map (\<lambda>e. consumption_row (m ! e) (claimed_assets interp par Va_p m ! e)) [0..<Ne par]"

definition claimed_Va :: "interp \<Rightarrow> par \<Rightarrow> real \<Rightarrow> real list list \<Rightarrow> real list list \<Rightarrow> real list list" where
  "claimed_Va interp par r Va_p m =
     map (\<lambda>e. Va_row par r (claimed_consumption interp par Va_p m ! e)) [0..<Ne par]"

text \<open>
  Well-formed arguments of \<open>time_iteration\<close>: arrays of shape \<open>(Ne, Na)\<close> as \<open>allocate\<close>
  makes them, a square transition matrix, a grid of \<open>Na\<close> points, \<open>sigma \<noteq> 0\<close>, and
  \<open>a\<close>, \<open>c\<close>, \<open>Va\<close>, \<open>m\<close> four different arrays (\<open>Va_p\<close> may be any of them).
\<close>

definition egm_wf :: "par \<Rightarrow> ref \<Rightarrow> ref \<Rightarrow> ref \<Rightarrow> ref \<Rightarrow> ref \<Rightarrow> store \<Rightarrow> bool" where
  "egm_wf par Va_p Va a c m h =
     (shape (Ne par) (Ne par) (e_trans par) \<and> length (a_grid par) = Na par
      \<and> 0 < Ne par \<and> 0 < Na par \<and> sigma par \<noteq> 0
      \<and> shape (Ne par) (Na par) (h Va_p) \<and> shape (Ne par) (Na par) (h m)
      \<and> shape (Ne par) (Na par) (h a) \<and> shape (Ne par) (Na par) (h c)
      \<and> shape (Ne par) (Na par) (h Va)
      \<and> a \<noteq> c \<and> a \<noteq> Va \<and> c \<noteq> Va \<and> m \<noteq> a \<and> m \<noteq> c \<and> m \<noteq> Va)"

section \<open>The iterates of the two fixed-point loops\<close>

text \<open>
  The store after \<open>k\<close> applications of \<open>time_iteration\<close> as \<open>solve_household_ss\<close> calls it,
  and whether application number \<open>k\<close> (counted from 0, as the loop's counter \<open>it\<close> counts)
  meets the tolerance: \<open>max|a_new - a_old| < solve_tol\<close>.
\<close>

fun solve_iterate :: "interp \<Rightarrow> par \<Rightarrow> real \<Rightarrow> real \<Rightarrow> sol \<Rightarrow> nat \<Rightarrow> store \<Rightarrow> error + store" where
  "solve_iterate interp par r w sl 0 h = Inr h"
| "solve_iterate interp par r w sl (Suc k) h =
     (case time_iteration interp par r w (sol_Va sl) (sol_Va sl) (sol_a sl) (sol_c sl) (sol_m sl) h of
        Inl e \<Rightarrow> Inl e
      | Inr h' \<Rightarrow> solve_iterate interp par r w sl k h')"

definition solve_converged :: "interp \<Rightarrow> par \<Rightarrow> real \<Rightarrow> real \<Rightarrow> sol \<Rightarrow> nat \<Rightarrow> store \<Rightarrow> bool" where
  "solve_converged interp par r w sl k h =
     (case solve_iterate interp par r w sl k h of
        Inl e \<Rightarrow> False
      | Inr hk \<Rightarrow>
          (case time_iteration interp par r w (sol_Va sl) (sol_Va sl) (sol_a sl) (sol_c sl)
                  (sol_m sl) hk of
             Inl e \<Rightarrow> False
           | Inr hk' \<Rightarrow>
               (case max_abs_diff (hk' (sol_a sl)) (hk (sol_a sl)) of
                  Inl e \<Rightarrow> False
                | Inr d \<Rightarrow> d < solve_tol par)))"

text \<open>Well-formed arrays of \<open>sol\<close>: those of \<open>time_iteration\<close> with \<open>sol.Va\<close> as \<open>Va_p\<close> and as \<open>Va\<close>.\<close>

definition solve_wf :: "par \<Rightarrow> sol \<Rightarrow> store \<Rightarrow> bool" where
  "solve_wf par sl h = egm_wf par (sol_Va sl) (sol_Va sl) (sol_a sl) (sol_c sl) (sol_m sl) h"

text \<open>
  The distribution after \<open>k\<close> applications of \<open>simulate\<close>, and whether application number
  \<open>k\<close> meets the tolerance: \<open>max|Dnew - D| < simulate_tol\<close>.
\<close>

fun simulate_iterate :: "par \<Rightarrow> sim \<Rightarrow> real list list \<Rightarrow> nat \<Rightarrow> real list list \<Rightarrow> error + real list list" where
  "simulate_iterate par sm e_trans_T 0 D = Inr D"
| "simulate_iterate par sm e_trans_T (Suc k) D =
     (case simulate par sm e_trans_T D of
        Inl e \<Rightarrow> Inl e
      | Inr Dnew \<Rightarrow> simulate_iterate par sm e_trans_T k Dnew)"

definition simulate_converged :: "par \<Rightarrow> sim \<Rightarrow> real list list \<Rightarrow> nat \<Rightarrow> real list list \<Rightarrow> bool" where
  "simulate_converged par sm e_trans_T k D =
     (case simulate_iterate par sm e_trans_T k D of
        Inl e \<Rightarrow> False
      | Inr Dk \<Rightarrow>
          (case simulate par sm e_trans_T Dk of
             Inl e \<Rightarrow> False
           | Inr Dnew \<Rightarrow>
               (case max_abs_diff Dnew Dk of
                  Inl e \<Rightarrow> False
                | Inr d \<Rightarrow> d < simulate_tol par)))"

text \<open>
  Well-formed arguments of the loop of \<open>simulate_ss\<close>: non-empty arrays of shape \<open>(Ne, Na)\<close>,
  indices as \<open>find_i_and_w\<close> stores them, a square \<open>e_trans_T\<close>.
\<close>

definition simulate_wf :: "par \<Rightarrow> sim \<Rightarrow> real list list \<Rightarrow> real list list \<Rightarrow> bool" where
  "simulate_wf par sm e_trans_T D =
     (0 < Ne par \<and> 0 < Na par
      \<and> shape (Ne par) (Na par) D \<and> shape (Ne par) (Na par) (sim_w sm)
      \<and> shape (Ne par) (Na par) (sim_i sm)
      \<and> list_all (list_all (\<lambda>i. 0 \<le> i \<and> i + 1 < int (Na par))) (sim_i sm)
      \<and> shape (Ne par) (Ne par) e_trans_T)"

text \<open>The example parameters with both iteration caps 0, and with both tolerances 1;
  the references of \<open>sol\<close> into the example store; indices and weights for it.\<close>

definition par_capped :: par where
  "par_capped = par_toy\<lparr>max_iter_solve := 0, max_iter_simulate := 0\<rparr>"

definition sol_toy :: sol where
  "sol_toy = \<lparr>sol_a = 2, sol_m = 4, sol_c = 3, sol_Va = 1\<rparr>"

definition sim_toy :: sim where
  "sim_toy = \<lparr>sim_i = [[0, 0, 1]], sim_w = [[1, 1 / 2, 0]], sim_D = []\<rparr>"

definition par_loose :: par where
  "par_loose = par_toy\<lparr>solve_tol := 1, simulate_tol := 1\<rparr>"

section \<open>Line 302 in float64 arithmetic\<close>

text \<open>
  A finite double is \<open>m \<cdot> 2^e\<close> with an integer \<open>m\<close> of at most 53 bits, here the pair
  \<open>(m, e)\<close>.  Subtraction and addition of doubles return the exact result rounded to 53
  bits, to the nearest double and on a tie to the one with the even mantissa (IEEE 754,
  the default rounding).  Overflow and subnormal numbers are left out.
\<close>

type_synonym f64 = "int \<times> int"

definition f64_value :: "f64 \<Rightarrow> real" where
  "f64_value x = real_of_int (fst x) * 2 powi snd x"

text \<open>The number of binary digits of a positive integer.\<close>

function bit_length :: "int \<Rightarrow> nat" where
  "bit_length n = (if n \<le> 0 then 0 else Suc (bit_length (n div 2)))"
  by pat_completeness auto
termination
  by (relation "measure nat") auto

declare bit_length.simps [simp del]

text \<open>\<open>M / 2^k\<close> rounded to the nearest integer, a tie to the even one.\<close>

definition round_half_even :: "int \<Rightarrow> nat \<Rightarrow> int" where
  "round_half_even M k =
     (let q = M div 2 ^ k; rest = M mod 2 ^ k
      in if 2 * rest < 2 ^ k then q
         else if 2 ^ k < 2 * rest then q + 1
         else if even q then q else q + 1)"

text \<open>The double nearest to \<open>M \<cdot> 2^E\<close>.\<close>

definition f64_round :: "int \<Rightarrow> int \<Rightarrow> f64" where
  "f64_round M E =
     (let n = bit_length \<bar>M\<bar>
      in if n \<le> 53 then (M, E) else (round_half_even M (n - 53), E + int (n - 53)))"

definition f64_sub :: "f64 \<Rightarrow> f64 \<Rightarrow> f64" where
  "f64_sub x y =
     (let e = min (snd x) (snd y)
      in f64_round (fst x * 2 ^ nat (snd x - e) - fst y * 2 ^ nat (snd y - e)) e)"

definition f64_add :: "f64 \<Rightarrow> f64 \<Rightarrow> f64" where
  "f64_add x y =
     (let e = min (snd x) (snd y)
      in f64_round (fst x * 2 ^ nat (snd x - e) + fst y * 2 ^ nat (snd y - e)) e)"

text \<open>\<open>c[i_e] = m[i_e] - a[i_e]\<close> on rows of doubles.\<close>

definition consumption_row_f64 :: "f64 list \<Rightarrow> f64 list \<Rightarrow> f64 list" where
  "consumption_row_f64 m_row a_row = map2 f64_sub m_row a_row"

section \<open>Properties of binary_search\<close>


lemma getitem_in [simp]: "0 \<le> i \<Longrightarrow> i < int (length x) \<Longrightarrow> getitem x i = Inr (x ! nat i)"
  by (simp add: getitem_def)

lemma binary_search_loop_bracket:
  assumes "sorted x"
    and "0 \<le> imin" and "1 \<le> Nx" and "imin + Nx \<le> int (length x)"
    and "x ! nat imin \<le> xi"
    and "imin + Nx < int (length x) \<longrightarrow> xi < x ! nat (imin + Nx)"
  shows "\<exists>i. binary_search_loop x xi imin Nx = Inr i \<and> imin \<le> i \<and> i < imin + Nx
           \<and> x ! nat i \<le> xi \<and> (i + 1 < int (length x) \<longrightarrow> xi < x ! nat (i + 1))"
  using assms
proof (induction x xi imin Nx rule: binary_search_loop.induct)
  case (1 x xi imin Nx)
  show ?case
  proof (cases "Nx div 2 = 0")
    case True
    with "1.prems" have "Nx = 1" by linarith
    have "binary_search_loop x xi imin Nx = Inr imin"
      using True by (subst binary_search_loop.simps) simp
    with "1.prems" \<open>Nx = 1\<close> show ?thesis by auto
  next
    case False
    let ?half = "Nx div 2"
    have h: "1 \<le> ?half" "?half < Nx" "?half \<le> Nx - ?half"
      using False "1.prems" by auto
    have mid: "0 \<le> imin + ?half" "imin + ?half < int (length x)"
      using h "1.prems" by auto
    have g: "getitem x (imin + Nx div 2) = Inr (x ! nat (imin + ?half))"
      using mid by simp
    let ?v = "x ! nat (imin + ?half)"
    let ?imin' = "if ?v \<le> xi then imin + ?half else imin"
    have up: "imin + (Nx - ?half) < int (length x) \<longrightarrow> \<not> ?v \<le> xi \<longrightarrow> xi < x ! nat (imin + (Nx - ?half))"
    proof (intro impI)
      assume a: "imin + (Nx - ?half) < int (length x)" and b: "\<not> ?v \<le> xi"
      have "nat (imin + ?half) \<le> nat (imin + (Nx - ?half))" using h "1.prems" by auto
      moreover have "nat (imin + (Nx - ?half)) < length x" using a h "1.prems" by auto
      ultimately have "?v \<le> x ! nat (imin + (Nx - ?half))"
        using \<open>sorted x\<close> by (simp add: sorted_iff_nth_mono)
      with b show "xi < x ! nat (imin + (Nx - ?half))" by simp
    qed
    have "\<exists>i. binary_search_loop x xi ?imin' (Nx - Nx div 2) = Inr i \<and> ?imin' \<le> i \<and> i < ?imin' + (Nx - Nx div 2)
           \<and> x ! nat i \<le> xi \<and> (i + 1 < int (length x) \<longrightarrow> xi < x ! nat (i + 1))"
    proof (rule "1.IH" [OF False g])
      show "sorted x" by fact
      show "0 \<le> ?imin'" using h "1.prems" by auto
      show "1 \<le> Nx - Nx div 2" using h by simp
      show "?imin' + (Nx - Nx div 2) \<le> int (length x)" using h "1.prems" by auto
      show "x ! nat ?imin' \<le> xi" using "1.prems" by auto
      show "?imin' + (Nx - Nx div 2) < int (length x) \<longrightarrow> xi < x ! nat (?imin' + (Nx - Nx div 2))"
        using up "1.prems" h by (auto simp: algebra_simps)
    qed
    then obtain i where i: "binary_search_loop x xi ?imin' (Nx - Nx div 2) = Inr i" "?imin' \<le> i"
      "i < ?imin' + (Nx - Nx div 2)" "x ! nat i \<le> xi" "i + 1 < int (length x) \<longrightarrow> xi < x ! nat (i + 1)"
      by blast
    have "binary_search_loop x xi imin Nx = Inr i"
      using i(1) False g by (subst binary_search_loop.simps) simp
    moreover have "imin \<le> i" using i(2) h by (auto split: if_splits)
    moreover have "i < imin + Nx" using i(3) h by (auto split: if_splits)
    ultimately show ?thesis using i(4,5) by blast
  qed
qed


lemma binary_search_loop_range:
  assumes "0 \<le> imin" and "1 \<le> Nx" and "imin + Nx \<le> int (length x)"
    and "imin < int (length x) - 2"
    and "xi < x ! nat (int (length x) - 2)"
  shows "\<exists>i. binary_search_loop x xi imin Nx = Inr i \<and> imin \<le> i \<and> i < int (length x) - 2"
  using assms
proof (induction x xi imin Nx rule: binary_search_loop.induct)
  case (1 x xi imin Nx)
  show ?case
  proof (cases "Nx div 2 = 0")
    case True
    have "binary_search_loop x xi imin Nx = Inr imin"
      using True by (subst binary_search_loop.simps) simp
    with "1.prems" show ?thesis by auto
  next
    case False
    let ?half = "Nx div 2"
    have h: "1 \<le> ?half" "?half < Nx" "?half \<le> Nx - ?half"
      using False "1.prems" by auto
    have mid: "0 \<le> imin + ?half" "imin + ?half < int (length x) - 1"
      using h "1.prems" by auto
    have g: "getitem x (imin + Nx div 2) = Inr (x ! nat (imin + ?half))"
      using mid by simp
    let ?v = "x ! nat (imin + ?half)"
    let ?imin' = "if ?v \<le> xi then imin + ?half else imin"
    have below: "?imin' < int (length x) - 2"
    proof (cases "?v \<le> xi")
      case True
      with "1.prems" have "imin + ?half \<noteq> int (length x) - 2" by auto
      with mid True show ?thesis by auto
    next
      case False
      with "1.prems" show ?thesis by simp
    qed
    have "\<exists>i. binary_search_loop x xi ?imin' (Nx - Nx div 2) = Inr i \<and> ?imin' \<le> i
            \<and> i < int (length x) - 2"
    proof (rule "1.IH" [OF False g])
      show "0 \<le> ?imin'" using h "1.prems" by auto
      show "1 \<le> Nx - Nx div 2" using h by simp
      show "?imin' + (Nx - Nx div 2) \<le> int (length x)" using h "1.prems" by auto
      show "?imin' < int (length x) - 2" by (rule below)
      show "xi < x ! nat (int (length x) - 2)" by fact
    qed
    then obtain i where i: "binary_search_loop x xi ?imin' (Nx - Nx div 2) = Inr i" "?imin' \<le> i"
      "i < int (length x) - 2"
      by blast
    have "binary_search_loop x xi imin Nx = Inr i"
      using i(1) False g by (subst binary_search_loop.simps) simp
    moreover have "imin \<le> i" using i(2) h by (auto split: if_splits)
    ultimately show ?thesis using i(3) by blast
  qed
qed

lemma binary_search_range:
  assumes "2 \<le> length x"
  shows "\<exists>i. binary_search 0 x xi = Inr i \<and> 0 \<le> i \<and> i \<le> int (length x) - 2"
proof -
  have g0: "getitem x 0 = Inr (x ! 0)" using assms by (auto simp: getitem_def)
  have gl: "getitem x (int (length x) - 2) = Inr (x ! nat (int (length x) - 2))"
    using assms by simp
  show ?thesis
  proof (cases "xi \<le> x ! 0 \<or> x ! nat (int (length x) - 2) \<le> xi")
    case True
    then show ?thesis using assms by (auto simp: binary_search_def g0 gl)
  next
    case False
    then have lt: "x ! 0 < xi" "xi < x ! nat (int (length x) - 2)" by auto
    then have "nat (int (length x) - 2) \<noteq> 0" by (auto intro!: notI)
    then have n3: "0 < int (length x) - 2" by simp
    from binary_search_loop_range [of 0 "int (length x)" x xi] n3 lt(2)
    obtain i where "binary_search_loop x xi 0 (int (length x)) = Inr i" "0 \<le> i"
      "i < int (length x) - 2" by auto
    then show ?thesis using False by (simp add: binary_search_def g0 gl)
  qed
qed

lemma binary_search_bracket:
  assumes "sorted_wrt (<) g" and "2 \<le> length g"
  shows "\<exists>i. binary_search 0 g q = Inr i \<and> 0 \<le> i \<and> i \<le> int (length g) - 2
           \<and> (q \<le> g ! 0 \<longrightarrow> i = 0)
           \<and> (g ! (length g - 2) \<le> q \<longrightarrow> i = int (length g) - 2)
           \<and> (g ! 0 < q \<and> q < g ! (length g - 2) \<longrightarrow> g ! nat i \<le> q \<and> q < g ! nat (i + 1))"
proof -
  have n2: "nat (int (length g) - 2) = length g - 2" using assms(2) by simp
  have g0: "getitem g 0 = Inr (g ! 0)" using assms(2) by (auto simp: getitem_def)
  have gl: "getitem g (int (length g) - 2) = Inr (g ! (length g - 2))"
    using assms(2) n2 by simp
  have srt: "sorted g" using assms(1) by (rule strict_sorted_imp_sorted)
  show ?thesis
  proof (cases "q \<le> g ! 0")
    case True
    have "g ! (length g - 2) \<le> q \<longrightarrow> length g - 2 = 0"
    proof
      assume a: "g ! (length g - 2) \<le> q"
      show "length g - 2 = 0"
      proof (rule ccontr)
        assume "length g - 2 \<noteq> 0"
        then have "g ! 0 < g ! (length g - 2)"
          using assms by (auto simp: sorted_wrt_iff_nth_less)
        with a True show False by simp
      qed
    qed
    with True assms(2) show ?thesis by (auto simp: binary_search_def g0)
  next
    case False
    note nle = False
    show ?thesis
    proof (cases "g ! (length g - 2) \<le> q")
      case True
      with nle assms(2) show ?thesis by (auto simp: binary_search_def g0 gl)
    next
      case False
      from binary_search_loop_bracket [of g 0 "int (length g)" q] srt nle assms(2)
      obtain i where i: "binary_search_loop g q 0 (int (length g)) = Inr i" "0 \<le> i"
        "i < int (length g)" "g ! nat i \<le> q" "i + 1 < int (length g) \<longrightarrow> q < g ! nat (i + 1)"
        by auto
      have "i < int (length g) - 2"
      proof (rule ccontr)
        assume "\<not> i < int (length g) - 2"
        then have "length g - 2 \<le> nat i" using i(2) by auto
        moreover have "nat i < length g" using i(2,3) by auto
        ultimately have "g ! (length g - 2) \<le> g ! nat i"
          using srt by (simp add: sorted_iff_nth_mono)
        with i(4) False show False by simp
      qed
      with i nle False show ?thesis by (auto simp: binary_search_def g0 gl)
    qed
  qed
qed

text \<open>
  C4.  On a strictly increasing grid \<open>g\<close> with at least two points, \<open>binary_search(0, g, q)\<close>
  returns for every query \<open>q\<close>: it yields an index \<open>i\<close> between \<open>0\<close> and \<open>Nx-2\<close>, which
  is \<open>0\<close> when \<open>q \<le> g[0]\<close>, is \<open>Nx-2\<close> when \<open>q \<ge> g[Nx-2]\<close>, and otherwise brackets the
  query: \<open>g[i] \<le> q < g[i+1]\<close>.
\<close>

theorem binary_search_correct:
  assumes "sorted_wrt (<) g" and "2 \<le> length g"
  shows "\<exists>i. binary_search 0 g q = Inr i \<and> 0 \<le> i \<and> i \<le> int (length g) - 2
           \<and> (q \<le> g ! 0 \<longrightarrow> i = 0)
           \<and> (g ! (length g - 2) \<le> q \<longrightarrow> i = int (length g) - 2)
           \<and> (g ! 0 < q \<and> q < g ! (length g - 2) \<longrightarrow> g ! nat i \<le> q \<and> q < g ! nat (i + 1))"
  using assms by (rule binary_search_bracket)

theorem binary_search_correct_witness:
  "sorted_wrt (<) [0, 1, 5, 7 :: real] \<and> 2 \<le> length [0, 1, 5, 7 :: real]
   \<and> binary_search 0 [0, 1, 5, 7] 3 = Inr 1"
proof -
  have s: "sorted_wrt (<) [0, 1, 5, 7 :: real]" and l: "2 \<le> length [0, 1, 5, 7 :: real]"
    by simp_all
  from binary_search_correct [OF s l, of 3]
  obtain i where i: "binary_search 0 [0, 1, 5, 7] 3 = Inr i" "0 \<le> i" "i \<le> 2"
    "[0, 1, 5, 7 :: real] ! nat i \<le> 3" "3 < [0, 1, 5, 7 :: real] ! nat (i + 1)"
    by auto
  have "i = 0 \<or> i = 1 \<or> i = 2" using i(2,3) by auto
  then have "i = 1" using i(4,5) by auto
  with i(1) s l show ?thesis by simp
qed

section \<open>Arrays and loops\<close>

lemma shape_nth: "shape n m A \<Longrightarrow> i < n \<Longrightarrow> length (A ! i) = m"
  by (auto simp: shape_def list_all_length)

lemma shape_length: "shape n m A \<Longrightarrow> length A = n"
  by (simp add: shape_def)

lemma shape_update:
  "shape n m A \<Longrightarrow> length row = m \<Longrightarrow> shape n m (A[i := row])"
  by (cases "i < length A") (auto simp: shape_def list_all_length nth_list_update)

lemma shape_update2: "shape n m A \<Longrightarrow> i < n \<Longrightarrow> shape n m (A[i := (A ! i)[j := v]])"
  by (rule shape_update) (auto simp: shape_nth)

lemma np_index_in [simp]: "i < n \<Longrightarrow> np_index n (int i) = Inr i"
  by (simp add: np_index_def)

lemma getitem_nat [simp]: "i < length x \<Longrightarrow> getitem x (int i) = Inr (x ! i)"
  by (simp add: getitem_def)

lemma getitem2_in:
  "shape n m A \<Longrightarrow> i < n \<Longrightarrow> j < m \<Longrightarrow> getitem2 A (int i) (int j) = Inr (A ! i ! j)"
  by (simp add: getitem2_def shape_length shape_nth)

lemma setitem2_in:
  "shape n m A \<Longrightarrow> i < n \<Longrightarrow> j < m
   \<Longrightarrow> setitem2 A (int i) (int j) v = Inr (A[i := (A ! i)[j := v]])"
  by (simp add: setitem2_def shape_length shape_nth)

lemma foldM_append:
  "foldM f (xs @ ys) s = (case foldM f xs s of Inl e \<Rightarrow> Inl e | Inr s' \<Rightarrow> foldM f ys s')"
  by (induction xs arbitrary: s) (auto split: sum.splits)

lemma foldM_upt_inv:
  assumes step: "\<And>k s. k < n \<Longrightarrow> I k s \<Longrightarrow> (case f k s of Inl e \<Rightarrow> Q e | Inr s' \<Rightarrow> I (Suc k) s')"
    and init: "I 0 s"
  shows "case foldM f [0..<n] s of Inl e \<Rightarrow> Q e | Inr s' \<Rightarrow> I n s'"
  using step
proof (induction n)
  case 0
  then show ?case using init by simp
next
  case (Suc n)
  have IH: "case foldM f [0..<n] s of Inl e \<Rightarrow> Q e | Inr s' \<Rightarrow> I n s'"
    by (rule Suc.IH) (simp add: Suc.prems)
  show ?case
  proof (cases "foldM f [0..<n] s")
    case (Inl e)
    with IH show ?thesis by (simp add: foldM_append)
  next
    case (Inr s')
    with IH have "I n s'" by simp
    then have "case f n s' of Inl e \<Rightarrow> Q e | Inr s'' \<Rightarrow> I (Suc n) s''"
      by (simp add: Suc.prems)
    with Inr show ?thesis by (auto simp: foldM_append split: sum.splits)
  qed
qed

section \<open>Properties of find_i_and_w\<close>

lemma find_i_and_w_cell_result:
  assumes a: "shape (Ne par) (Na par) a"
    and si: "shape (Ne par) (Na par) (sim_i sm)"
    and sw: "shape (Ne par) (Na par) (sim_w sm)"
    and grid: "length (a_grid par) = Na par" "2 \<le> Na par"
    and e: "e < Ne par" and ia: "ia < Na par"
  shows "case find_i_and_w_cell par a e ia sm of
           Inl err \<Rightarrow> err = ZeroDivisionError \<and> \<not> sorted_wrt (<) (a_grid par)
         | Inr sm' \<Rightarrow>
             (\<exists>i. binary_search 0 (a_grid par) (a ! e ! ia) = Inr i
                \<and> a_grid par ! nat (i + 1) \<noteq> a_grid par ! nat i
                \<and> sim_i sm' = (sim_i sm)[e := (sim_i sm ! e)[ia := i]]
                \<and> sim_w sm' = (sim_w sm)[e := (sim_w sm ! e)[ia := weight_of (a_grid par) i (a ! e ! ia)]]
                \<and> sim_D sm' = sim_D sm)"
proof -
  from binary_search_range [of "a_grid par" "a ! e ! ia"] grid
  obtain i where i: "binary_search 0 (a_grid par) (a ! e ! ia) = Inr i" "0 \<le> i" "i \<le> int (Na par) - 2"
    by auto
  have g1: "getitem (a_grid par) (i + 1) = Inr (a_grid par ! nat (i + 1))"
    using i grid by simp
  have g0: "getitem (a_grid par) i = Inr (a_grid par ! nat i)"
    using i grid by simp
  show ?thesis
  proof (cases "a_grid par ! nat (i + 1) - a_grid par ! nat i = 0")
    case True
    have "\<not> sorted_wrt (<) (a_grid par)"
    proof
      assume "sorted_wrt (<) (a_grid par)"
      moreover have "nat i < nat (i + 1)" "nat (i + 1) < length (a_grid par)" using i grid by auto
      ultimately have "a_grid par ! nat i < a_grid par ! nat (i + 1)"
        by (simp add: sorted_wrt_iff_nth_less)
      with True show False by simp
    qed
    with True show ?thesis
      by (simp add: find_i_and_w_cell_def getitem2_in [OF a e ia] i(1)
          setitem2_in [OF si e ia] g1 g0)
  next
    case False
    then show ?thesis
      by (simp add: find_i_and_w_cell_def getitem2_in [OF a e ia] i(1)
          setitem2_in [OF si e ia] setitem2_in [OF sw e ia] g1 g0 weight_of_def)
  qed
qed

lemma fiw_inv_cell:
  assumes a: "shape (Ne par) (Na par) a"
    and grid: "length (a_grid par) = Na par" "2 \<le> Na par"
    and e: "e < Ne par" and ia: "ia < Na par"
    and inv: "fiw_inv par a sm0 e ia sm"
  shows "case find_i_and_w_cell par a e ia sm of
           Inl err \<Rightarrow> err = ZeroDivisionError \<and> \<not> sorted_wrt (<) (a_grid par)
         | Inr sm' \<Rightarrow> fiw_inv par a sm0 e (Suc ia) sm'"
proof -
  from inv have si: "shape (Ne par) (Na par) (sim_i sm)" and sw: "shape (Ne par) (Na par) (sim_w sm)"
    by (simp_all add: fiw_inv_def)
  note r = find_i_and_w_cell_result [OF a si sw grid e ia]
  show ?thesis
  proof (cases "find_i_and_w_cell par a e ia sm")
    case (Inl err)
    with r show ?thesis by simp
  next
    case (Inr sm')
    with r obtain i where i: "binary_search 0 (a_grid par) (a ! e ! ia) = Inr i"
      "a_grid par ! nat (i + 1) \<noteq> a_grid par ! nat i"
      "sim_i sm' = (sim_i sm)[e := (sim_i sm ! e)[ia := i]]"
      "sim_w sm' = (sim_w sm)[e := (sim_w sm ! e)[ia := weight_of (a_grid par) i (a ! e ! ia)]]"
      "sim_D sm' = sim_D sm" by auto
    have le: "e < length (sim_i sm)" "e < length (sim_w sm)"
      using si sw e by (simp_all add: shape_length)
    have lia: "ia < length (sim_i sm ! e)" "ia < length (sim_w sm ! e)"
      using si sw e ia by (simp_all add: shape_nth)
    have "cell_ok par a sm' e' ia'"
      if "e' < Ne par" "ia' < Na par" "e' < e \<or> (e' = e \<and> ia' < Suc ia)" for e' ia'
    proof (cases "e' = e \<and> ia' = ia")
      case True
      then show ?thesis using i le lia by (simp add: cell_ok_def)
    next
      case False
      with that have old: "cell_ok par a sm e' ia'"
        using inv by (auto simp: fiw_inv_def)
      have "sim_i sm' ! e' ! ia' = sim_i sm ! e' ! ia'" "sim_w sm' ! e' ! ia' = sim_w sm ! e' ! ia'"
        using False le lia by (auto simp: i(3,4) nth_list_update)
      with old show ?thesis by (simp add: cell_ok_def)
    qed
    then have "fiw_inv par a sm0 e (Suc ia) sm'"
      using inv i(5) e by (auto simp: fiw_inv_def i(3,4) intro!: shape_update2 si sw)
    with Inr show ?thesis by simp
  qed
qed

lemma fiw_inv_row:
  assumes a: "shape (Ne par) (Na par) a"
    and grid: "length (a_grid par) = Na par" "2 \<le> Na par"
    and e: "e < Ne par"
    and inv: "fiw_inv par a sm0 e 0 sm"
  shows "case foldM (\<lambda>i_a. find_i_and_w_cell par a e i_a) [0..<Na par] sm of
           Inl err \<Rightarrow> err = ZeroDivisionError \<and> \<not> sorted_wrt (<) (a_grid par)
         | Inr sm' \<Rightarrow> fiw_inv par a sm0 (Suc e) 0 sm'"
proof -
  have "case foldM (\<lambda>i_a. find_i_and_w_cell par a e i_a) [0..<Na par] sm of
           Inl err \<Rightarrow> err = ZeroDivisionError \<and> \<not> sorted_wrt (<) (a_grid par)
         | Inr sm' \<Rightarrow> fiw_inv par a sm0 e (Na par) sm'"
    by (rule foldM_upt_inv [where I = "fiw_inv par a sm0 e"]) (auto intro: fiw_inv_cell [OF a grid e] inv)
  moreover have "fiw_inv par a sm0 e (Na par) sm' \<Longrightarrow> fiw_inv par a sm0 (Suc e) 0 sm'" for sm'
    by (auto simp: fiw_inv_def less_Suc_eq)
  ultimately show ?thesis by (auto split: sum.splits)
qed

lemma find_i_and_w_inv:
  assumes a: "shape (Ne par) (Na par) a"
    and si: "shape (Ne par) (Na par) (sim_i sm)"
    and sw: "shape (Ne par) (Na par) (sim_w sm)"
    and grid: "length (a_grid par) = Na par" "2 \<le> Na par"
  shows "case find_i_and_w par sm a of
           Inl err \<Rightarrow> err = ZeroDivisionError \<and> \<not> sorted_wrt (<) (a_grid par)
         | Inr sm' \<Rightarrow> fiw_inv par a sm (Ne par) 0 sm'"
  unfolding find_i_and_w_def
  by (rule foldM_upt_inv [where I = "\<lambda>k. fiw_inv par a sm k 0"])
    (auto intro: fiw_inv_row [OF a grid] simp: fiw_inv_def si sw)

section \<open>Properties of simulate\<close>

lemma getitem2_int:
  "shape n m A \<Longrightarrow> i < n \<Longrightarrow> 0 \<le> j \<Longrightarrow> j < int m
   \<Longrightarrow> getitem2 A (int i) j = Inr (A ! i ! nat j)"
  by (simp add: getitem2_def shape_length shape_nth)

lemma setitem2_int:
  "shape n m A \<Longrightarrow> i < n \<Longrightarrow> 0 \<le> j \<Longrightarrow> j < int m
   \<Longrightarrow> setitem2 A (int i) j v = Inr (A[i := (A ! i)[nat j := v]])"
  by (simp add: setitem2_def shape_length shape_nth np_index_def)

lemma iadd2_int:
  "shape n m A \<Longrightarrow> i < n \<Longrightarrow> 0 \<le> j \<Longrightarrow> j < int m
   \<Longrightarrow> iadd2 A (int i) j v = Inr (A[i := (A ! i)[nat j := A ! i ! nat j + v]])"
  by (simp add: iadd2_def getitem2_int setitem2_int)

lemma sum_list_update_real:
  "k < length xs \<Longrightarrow> sum_list (xs[k := x]) = sum_list xs + (x - xs ! k)" for xs :: "real list"
proof (induction xs arbitrary: k)
  case Nil
  then show ?case by simp
next
  case (Cons y ys)
  then show ?case by (cases k) auto
qed

lemma length_scatter [simp]: "length (scatter row i m w) = length row"
  by (simp add: scatter_def)

lemma sum_list_scatter:
  assumes "0 \<le> i" "i + 1 < int (length row)"
  shows "sum_list (scatter row i m w) = sum_list row + m"
proof -
  have ne: "nat (i + 1) \<noteq> nat i" and lt: "nat i < length row" "nat (i + 1) < length row"
    using assms by auto
  show ?thesis
    using ne lt by (simp add: scatter_def sum_list_update_real algebra_simps)
qed

lemma scatter_nonneg:
  assumes "\<forall>x \<in> set row. 0 \<le> x" "0 \<le> m" "0 \<le> w" "w \<le> 1"
  shows "\<forall>x \<in> set (scatter row i m w). 0 \<le> x"
proof -
  have a: "0 \<le> m * w" "0 \<le> m * (1 - w)" using assms by simp_all
  have b: "0 \<le> row ! j" if "j < length row" for j using assms(1) that by simp
  have "0 \<le> scatter row i m w ! j" if "j < length row" for j
    using that a b [of j] b [of "nat i"] b [of "nat (i + 1)"]
    by (cases "nat i < length row"; cases "nat (i + 1) < length row")
      (auto simp: scatter_def nth_list_update list_update_beyond)
  then show ?thesis by (auto simp: in_set_conv_nth)
qed

lemma simulate_cell_result:
  assumes D: "shape n m D" and sw: "shape n m (sim_w sm)" and si: "shape n m (sim_i sm)"
    and Dn: "shape n m Dn" and e: "e < n" and ia: "ia < m"
    and idx: "0 \<le> sim_i sm ! e ! ia" "sim_i sm ! e ! ia + 1 < int m"
  shows "simulate_cell sm D e ia Dn
           = Inr (Dn[e := scatter (Dn ! e) (sim_i sm ! e ! ia) (D ! e ! ia) (sim_w sm ! e ! ia)])"
proof -
  let ?i = "sim_i sm ! e ! ia"
  let ?A = "Dn[e := (Dn ! e)[nat ?i := Dn ! e ! nat ?i + D ! e ! ia * sim_w sm ! e ! ia]]"
  have A: "shape n m ?A" using Dn e by (rule shape_update2)
  have le: "e < length Dn" using Dn e by (simp add: shape_length)
  have lr: "nat ?i < length (Dn ! e)" using Dn e idx by (simp add: shape_nth)
  have ne: "nat (?i + 1) \<noteq> nat ?i" "nat ?i \<noteq> nat (?i + 1)" using idx by auto
  have 1: "iadd2 Dn (int e) ?i (D ! e ! ia * sim_w sm ! e ! ia) = Inr ?A"
    using idx by (simp add: iadd2_int [OF Dn e])
  have 2: "iadd2 ?A (int e) (?i + 1) (D ! e ! ia * (1 - sim_w sm ! e ! ia))
        = Inr (?A[e := (?A ! e)[nat (?i + 1) := ?A ! e ! nat (?i + 1) + D ! e ! ia * (1 - sim_w sm ! e ! ia)]])"
    using idx by (simp add: iadd2_int [OF A e])
  show ?thesis
    unfolding simulate_cell_def
    by (simp add: getitem2_in [OF D e ia] getitem2_in [OF sw e ia] getitem2_in [OF si e ia] 1 2)
      (simp add: le ne scatter_def)
qed


lemma nonneg_update:
  "nonneg A \<Longrightarrow> \<forall>x \<in> set row. 0 \<le> x \<Longrightarrow> nonneg (A[i := row])"
  by (cases "i < length A") (auto simp: nonneg_def list_all_length nth_list_update list_all_iff)

lemma nonneg_row: "nonneg A \<Longrightarrow> i < length A \<Longrightarrow> \<forall>x \<in> set (A ! i). 0 \<le> x"
  by (auto simp: nonneg_def list_all_length in_set_conv_nth)

lemma np_sum_update:
  "e < length A \<Longrightarrow> np_sum (A[e := row]) = np_sum A + (sum_list row - sum_list (A ! e))"
  by (simp add: np_sum_def map_update sum_list_update_real)

lemma np_sum_take_Suc: "e < length A \<Longrightarrow> np_sum (take (Suc e) A) = np_sum (take e A) + sum_list (A ! e)"
  by (simp add: np_sum_def take_Suc_conv_app_nth)


lemma sc_inv_cell:
  assumes D: "shape n m D" and sw: "shape n m (sim_w sm)" and si: "shape n m (sim_i sm)"
    and e: "e < n" and ia: "ia < m"
    and idx: "0 \<le> sim_i sm ! e ! ia" "sim_i sm ! e ! ia + 1 < int m"
    and P: "P \<Longrightarrow> 0 \<le> D ! e ! ia \<and> 0 \<le> sim_w sm ! e ! ia \<and> sim_w sm ! e ! ia \<le> 1"
    and inv: "sc_inv n m P D e ia Dn"
  shows "\<exists>Dn'. simulate_cell sm D e ia Dn = Inr Dn' \<and> sc_inv n m P D e (Suc ia) Dn'"
proof -
  let ?row = "scatter (Dn ! e) (sim_i sm ! e ! ia) (D ! e ! ia) (sim_w sm ! e ! ia)"
  from inv have Dn: "shape n m Dn" by (simp add: sc_inv_def)
  have r: "simulate_cell sm D e ia Dn = Inr (Dn[e := ?row])"
    by (rule simulate_cell_result [OF D sw si Dn e ia idx])
  have le: "e < length Dn" and lr: "length (Dn ! e) = m"
    using Dn e by (simp_all add: shape_length shape_nth)
  have "sum_list ?row = sum_list (Dn ! e) + D ! e ! ia"
    using idx lr by (simp add: sum_list_scatter)
  then have t: "np_sum (Dn[e := ?row]) = np_sum Dn + D ! e ! ia"
    using le by (simp add: np_sum_update)
  have "ia < length (D ! e)" using D e ia by (simp add: shape_nth)
  then have tk: "sum_list (take (Suc ia) (D ! e)) = sum_list (take ia (D ! e)) + D ! e ! ia"
    by (simp add: take_Suc_conv_app_nth)
  have nn: "nonneg (Dn[e := ?row])" if P
  proof (rule nonneg_update)
    from inv that show "nonneg Dn" by (simp add: sc_inv_def)
    then have "\<forall>x \<in> set (Dn ! e). 0 \<le> x" using le by (rule nonneg_row)
    then show "\<forall>x \<in> set ?row. 0 \<le> x" using P [OF that] by (intro scatter_nonneg) simp_all
  qed
  have "sc_inv n m P D e (Suc ia) (Dn[e := ?row])"
    using inv t tk nn by (auto simp: sc_inv_def intro!: shape_update Dn simp: lr)
  with r show ?thesis by simp
qed

lemma sc_inv_row:
  assumes D: "shape n m D" and sw: "shape n m (sim_w sm)" and si: "shape n m (sim_i sm)"
    and e: "e < n"
    and idx: "\<And>ia. ia < m \<Longrightarrow> 0 \<le> sim_i sm ! e ! ia \<and> sim_i sm ! e ! ia + 1 < int m"
    and P: "\<And>ia. P \<Longrightarrow> ia < m \<Longrightarrow> 0 \<le> D ! e ! ia \<and> 0 \<le> sim_w sm ! e ! ia \<and> sim_w sm ! e ! ia \<le> 1"
    and inv: "sc_inv n m P D e 0 Dn"
  shows "\<exists>Dn'. foldM (\<lambda>i_a. simulate_cell sm D e i_a) [0..<m] Dn = Inr Dn' \<and> sc_inv n m P D (Suc e) 0 Dn'"
proof -
  have "case foldM (\<lambda>i_a. simulate_cell sm D e i_a) [0..<m] Dn of
          Inl err \<Rightarrow> False | Inr Dn' \<Rightarrow> sc_inv n m P D e m Dn'"
  proof (rule foldM_upt_inv [where I = "sc_inv n m P D e"])
    fix k s assume k: "k < m" and s: "sc_inv n m P D e k s"
    from sc_inv_cell [OF D sw si e k _ _ _ s] idx [OF k] P [OF _ k]
    obtain s' where "simulate_cell sm D e k s = Inr s'" "sc_inv n m P D e (Suc k) s'" by blast
    then show "case simulate_cell sm D e k s of Inl err \<Rightarrow> False | Inr s' \<Rightarrow> sc_inv n m P D e (Suc k) s'"
      by simp
  qed (rule inv)
  then obtain Dn' where Dn': "foldM (\<lambda>i_a. simulate_cell sm D e i_a) [0..<m] Dn = Inr Dn'"
    "sc_inv n m P D e m Dn'" by (auto split: sum.splits)
  have "length (D ! e) = m" "e < length D" using D e by (simp_all add: shape_nth shape_length)
  then have "sc_inv n m P D (Suc e) 0 Dn'"
    using Dn'(2) by (simp add: sc_inv_def np_sum_take_Suc)
  with Dn'(1) show ?thesis by simp
qed

lemma sc_inv_all:
  assumes D: "shape n m D" and sw: "shape n m (sim_w sm)" and si: "shape n m (sim_i sm)"
    and idx: "\<And>e ia. e < n \<Longrightarrow> ia < m \<Longrightarrow> 0 \<le> sim_i sm ! e ! ia \<and> sim_i sm ! e ! ia + 1 < int m"
    and P: "\<And>e ia. P \<Longrightarrow> e < n \<Longrightarrow> ia < m \<Longrightarrow> 0 \<le> D ! e ! ia \<and> 0 \<le> sim_w sm ! e ! ia \<and> sim_w sm ! e ! ia \<le> 1"
  shows "\<exists>Dn. foldM (\<lambda>i_e. foldM (\<lambda>i_a. simulate_cell sm D i_e i_a) [0..<m]) [0..<n] (zeros_like D) = Inr Dn
           \<and> shape n m Dn \<and> np_sum Dn = np_sum D \<and> (P \<longrightarrow> nonneg Dn)"
proof -
  have z: "sc_inv n m P D 0 0 (zeros_like D)"
    using D by (auto simp: sc_inv_def zeros_like_def shape_def list_all_iff np_sum_def nonneg_def
        o_def intro!: sum_list_0)
  have "case foldM (\<lambda>i_e. foldM (\<lambda>i_a. simulate_cell sm D i_e i_a) [0..<m]) [0..<n] (zeros_like D) of
          Inl err \<Rightarrow> False | Inr Dn \<Rightarrow> sc_inv n m P D n 0 Dn"
  proof (rule foldM_upt_inv [where I = "\<lambda>k. sc_inv n m P D k 0"])
    fix k s assume k: "k < n" and s: "sc_inv n m P D k 0 s"
    from sc_inv_row [OF D sw si k _ _ s] idx [OF k] P [OF _ k]
    obtain s' where "foldM (\<lambda>i_a. simulate_cell sm D k i_a) [0..<m] s = Inr s'"
      "sc_inv n m P D (Suc k) 0 s'" by blast
    then show "case foldM (simulate_cell sm D k) [0..<m] s of Inl err \<Rightarrow> False
                | Inr s' \<Rightarrow> sc_inv n m P D (Suc k) 0 s'" by simp
  qed (rule z)
  then obtain Dn where Dn: "foldM (\<lambda>i_e. foldM (\<lambda>i_a. simulate_cell sm D i_e i_a) [0..<m]) [0..<n] (zeros_like D) = Inr Dn"
    "sc_inv n m P D n 0 Dn" by (auto split: sum.splits)
  have "take n D = D" using D by (simp add: shape_length)
  with Dn(2) have "shape n m Dn \<and> np_sum Dn = np_sum D \<and> (P \<longrightarrow> nonneg Dn)"
    by (simp add: sc_inv_def)
  with Dn(1) show ?thesis by blast
qed

lemma ncols_shape: "shape k m B \<Longrightarrow> 0 < k \<Longrightarrow> ncols B = m"
  by (cases B) (auto simp: ncols_def shape_def)

lemma matmul_result:
  assumes A: "shape n k A" and B: "shape k m B" and k: "0 < k"
  shows "matmul A B = Inr (map (\<lambda>row. map (\<lambda>j. \<Sum>l = 0..<k. row ! l * B ! l ! j) [0..<m]) A)"
proof -
  have "list_all (\<lambda>row. length row = length B) A"
    using A B by (simp add: shape_def)
  then show ?thesis
    using B k by (simp add: matmul_def ncols_shape shape_length interv_sum_list_conv_sum_set_nat)
qed



lemma weight_of_bounds:
  assumes srt: "sorted_wrt (<) g" and len: "2 \<le> length g"
    and bs: "binary_search 0 g av = Inr i"
  shows "0 \<le> i \<and> i \<le> int (length g) - 2
         \<and> (g ! 0 \<le> av \<and> av \<le> g ! (length g - 1) \<longrightarrow> 0 \<le> weight_of g i av \<and> weight_of g i av \<le> 1)
         \<and> (av \<in> set g \<longrightarrow> weight_of g i av = 0 \<or> weight_of g i av = 1)
         \<and> (av < g ! 0 \<longrightarrow> 1 < weight_of g i av)
         \<and> (g ! (length g - 1) < av \<longrightarrow> weight_of g i av < 0)"
proof -
  from binary_search_bracket [OF srt len, of av] bs
  have i: "0 \<le> i" "i \<le> int (length g) - 2" "av \<le> g ! 0 \<longrightarrow> i = 0"
    "g ! (length g - 2) \<le> av \<longrightarrow> i = int (length g) - 2"
    "g ! 0 < av \<and> av < g ! (length g - 2) \<longrightarrow> g ! nat i \<le> av \<and> av < g ! nat (i + 1)"
    by auto
  have ni: "nat (i + 1) = Suc (nat i)" "Suc (nat i) < length g" using i(1,2) by auto
  have lt: "g ! nat i < g ! Suc (nat i)"
    using srt ni by (simp add: sorted_wrt_iff_nth_less)
  have mono: "g ! j < g ! k" if "j < k" "k < length g" for j k
    using srt that by (simp add: sorted_wrt_iff_nth_less)
  have monole: "g ! j \<le> g ! k" if "j \<le> k" "k < length g" for j k
    using mono [of j k] that by (cases "j = k") auto
  have w: "weight_of g i av = (g ! Suc (nat i) - av) / (g ! Suc (nat i) - g ! nat i)"
    by (simp add: weight_of_def ni)
  have d: "0 < g ! Suc (nat i) - g ! nat i" using lt by simp
  have last: "i = int (length g) - 2 \<Longrightarrow> Suc (nat i) = length g - 1 \<and> nat i = length g - 2"
    using len by auto
  have inside: "0 \<le> weight_of g i av \<and> weight_of g i av \<le> 1"
    if "g ! 0 \<le> av" "av \<le> g ! (length g - 1)"
  proof -
    have "g ! nat i \<le> av \<and> av \<le> g ! Suc (nat i)"
    proof (cases "av \<le> g ! 0")
      case True
      with i(3) that have "i = 0" "av = g ! 0" by auto
      then show ?thesis using lt by simp
    next
      case False
      show ?thesis
      proof (cases "g ! (length g - 2) \<le> av")
        case True
        with i(4) last that show ?thesis by auto
      next
        case F2: False
        with False i(5) ni show ?thesis by auto
      qed
    qed
    then show ?thesis using d by (simp add: w)
  qed
  have ongrid: "weight_of g i av = 0 \<or> weight_of g i av = 1" if "av \<in> set g"
  proof -
    from that obtain k where k: "k < length g" "av = g ! k" by (auto simp: in_set_conv_nth)
    have "k = nat i \<or> k = Suc (nat i)"
    proof (cases "av \<le> g ! 0")
      case True
      with i(3) have i0: "i = 0" by simp
      have "k = 0"
      proof (rule ccontr)
        assume "k \<noteq> 0"
        then have "g ! 0 < g ! k" using k by (intro mono) auto
        with True k show False by simp
      qed
      with i0 show ?thesis by simp
    next
      case False
      show ?thesis
      proof (cases "g ! (length g - 2) \<le> av")
        case True
        with i(4) have il: "i = int (length g) - 2" by simp
        have "\<not> k < length g - 2"
        proof
          assume "k < length g - 2"
          then have "g ! k < g ! (length g - 2)" using len by (intro mono) auto
          with True k show False by simp
        qed
        with k last [OF il] show ?thesis by auto
      next
        case F2: False
        with False i(5) ni have b: "g ! nat i \<le> g ! k" "g ! k < g ! Suc (nat i)"
          using k by auto
        have "\<not> k < nat i"
        proof
          assume "k < nat i"
          then have "g ! k < g ! nat i" using ni by (intro mono) auto
          with b show False by simp
        qed
        moreover have "\<not> Suc (nat i) \<le> k"
        proof
          assume "Suc (nat i) \<le> k"
          then have "g ! Suc (nat i) \<le> g ! k" using k by (intro monole) auto
          with b show False by simp
        qed
        ultimately show ?thesis by auto
      qed
    qed
    then show ?thesis
    proof
      assume "k = nat i"
      then have "av = g ! nat i" using k by simp
      then have "weight_of g i av = 1" using d unfolding w by simp
      then show ?thesis ..
    next
      assume "k = Suc (nat i)"
      then have "av = g ! Suc (nat i)" using k by simp
      then have "weight_of g i av = 0" unfolding w by simp
      then show ?thesis ..
    qed
  qed
  have below: "1 < weight_of g i av" if "av < g ! 0"
  proof -
    from that i(3) have "i = 0" by simp
    with that have "g ! nat i - av > 0" by simp
    then have "g ! Suc (nat i) - g ! nat i < g ! Suc (nat i) - av" by simp
    then show ?thesis unfolding w using d by simp
  qed
  have above: "weight_of g i av < 0" if "g ! (length g - 1) < av"
  proof -
    have "g ! (length g - 2) \<le> g ! (length g - 1)" using len by (intro monole) auto
    with that i(4) have "i = int (length g) - 2" by simp
    from last [OF this] have "g ! Suc (nat i) = g ! (length g - 1)" by metis
    with that have "g ! Suc (nat i) - av < 0" by simp
    then show ?thesis unfolding w using d by (simp add: divide_neg_pos)
  qed
  from i(1,2) inside ongrid below above show ?thesis by blast
qed



lemma simulate_no_IndexError:
  assumes D: "shape n m D" and sw: "shape n m (sim_w sm)" and si: "shape n m (sim_i sm)"
    and idx: "\<And>e ia. e < n \<Longrightarrow> ia < m \<Longrightarrow> 0 \<le> sim_i sm ! e ! ia \<and> sim_i sm ! e ! ia + 1 < int m"
    and par: "Ne par = n" "Na par = m"
  shows "simulate par sm eT D \<noteq> Inl IndexError"
proof -
  from sc_inv_all [OF D sw si, of False] idx
  obtain Dn where "foldM (\<lambda>i_e. foldM (\<lambda>i_a. simulate_cell sm D i_e i_a) [0..<m]) [0..<n]
      (zeros_like D) = Inr Dn" by auto
  then show ?thesis by (simp add: simulate_def par matmul_def)
qed

text \<open>
  C10.  For every asset grid with \<open>Na \<ge> 2\<close> points, sorted or not, \<open>binary_search\<close> returns
  for every real query an index between \<open>0\<close> and \<open>Na - 2\<close>.  So on arrays of shape
  \<open>(Ne, Na)\<close> \<open>find_i_and_w\<close> never fails with an index error, every index it stores lies
  between \<open>0\<close> and \<open>Na - 2\<close>, and \<open>simulate\<close> run with the stored indices never reads or
  writes outside an array.
\<close>

theorem find_i_and_w_index_in_bounds:
  assumes a: "shape (Ne par) (Na par) a"
    and si: "shape (Ne par) (Na par) (sim_i sm)"
    and sw: "shape (Ne par) (Na par) (sim_w sm)"
    and grid: "length (a_grid par) = Na par" "2 \<le> Na par"
  shows "(\<forall>av. \<exists>i. binary_search 0 (a_grid par) av = Inr i \<and> 0 \<le> i \<and> i \<le> int (Na par) - 2)
       \<and> find_i_and_w par sm a \<noteq> Inl IndexError
       \<and> (\<forall>sm'. find_i_and_w par sm a = Inr sm' \<longrightarrow>
            (\<forall>e < Ne par. \<forall>ia < Na par.
               0 \<le> sim_i sm' ! e ! ia \<and> sim_i sm' ! e ! ia \<le> int (Na par) - 2)
            \<and> (\<forall>D e_trans_T. shape (Ne par) (Na par) D \<longrightarrow>
                  simulate par sm' e_trans_T D \<noteq> Inl IndexError))"
proof -
  have 1: "\<exists>i. binary_search 0 (a_grid par) av = Inr i \<and> 0 \<le> i \<and> i \<le> int (Na par) - 2" for av
    using binary_search_range [of "a_grid par" av] grid by simp
  have 2: "find_i_and_w par sm a \<noteq> Inl IndexError"
    using find_i_and_w_inv [OF a si sw grid] by (auto split: sum.splits)
  have 3: "(\<forall>e < Ne par. \<forall>ia < Na par.
               0 \<le> sim_i sm' ! e ! ia \<and> sim_i sm' ! e ! ia \<le> int (Na par) - 2)
            \<and> (\<forall>D e_trans_T. shape (Ne par) (Na par) D \<longrightarrow>
                  simulate par sm' e_trans_T D \<noteq> Inl IndexError)"
    if r: "find_i_and_w par sm a = Inr sm'" for sm'
  proof -
    from r find_i_and_w_inv [OF a si sw grid] have inv: "fiw_inv par a sm (Ne par) 0 sm'" by simp
    have rng: "0 \<le> sim_i sm' ! e ! ia \<and> sim_i sm' ! e ! ia \<le> int (Na par) - 2"
      if "e < Ne par" "ia < Na par" for e ia
    proof -
      from inv that have "binary_search 0 (a_grid par) (a ! e ! ia) = Inr (sim_i sm' ! e ! ia)"
        by (simp add: fiw_inv_def cell_ok_def)
      with binary_search_range [of "a_grid par" "a ! e ! ia"] grid show ?thesis by simp
    qed
    from inv have s: "shape (Ne par) (Na par) (sim_w sm')" "shape (Ne par) (Na par) (sim_i sm')"
      by (simp_all add: fiw_inv_def)
    have "simulate par sm' e_trans_T D \<noteq> Inl IndexError"
      if D: "shape (Ne par) (Na par) D" for D e_trans_T
    proof (rule simulate_no_IndexError [OF D s])
      fix e ia assume "e < Ne par" "ia < Na par"
      with rng [of e ia] show "0 \<le> sim_i sm' ! e ! ia \<and> sim_i sm' ! e ! ia + 1 < int (Na par)"
        by simp
    qed simp_all
    with rng show ?thesis by blast
  qed
  from 1 2 3 show ?thesis by blast
qed

text \<open>
  C5, amended.  On a strictly increasing grid with \<open>Na \<ge> 2\<close> points \<open>find_i_and_w\<close> returns,
  and stores in every cell an index \<open>i\<close> between \<open>0\<close> and \<open>Na - 2\<close> and the weight
  \<open>w = (grid[i+1] - a_) / (grid[i+1] - grid[i])\<close>.  The weight lies in \<open>[0, 1]\<close> when the
  asset choice lies within the grid, \<open>grid[0] \<le> a_ \<le> grid[Na-1]\<close>; it is exactly 0 or 1
  when the asset choice is a grid point; it exceeds 1 for a choice below the grid and
  is negative for a choice above it.
\<close>

theorem find_i_and_w_weights:
  assumes a: "shape (Ne par) (Na par) a"
    and si: "shape (Ne par) (Na par) (sim_i sm)"
    and sw: "shape (Ne par) (Na par) (sim_w sm)"
    and grid: "length (a_grid par) = Na par" "2 \<le> Na par" "sorted_wrt (<) (a_grid par)"
  shows "\<exists>sm'. find_i_and_w par sm a = Inr sm'
           \<and> (\<forall>e < Ne par. \<forall>ia < Na par.
                0 \<le> sim_i sm' ! e ! ia \<and> sim_i sm' ! e ! ia \<le> int (Na par) - 2
                \<and> sim_w sm' ! e ! ia
                    = (a_grid par ! nat (sim_i sm' ! e ! ia + 1) - a ! e ! ia)
                      / (a_grid par ! nat (sim_i sm' ! e ! ia + 1) - a_grid par ! nat (sim_i sm' ! e ! ia))
                \<and> (a_grid par ! 0 \<le> a ! e ! ia \<and> a ! e ! ia \<le> a_grid par ! (Na par - 1)
                     \<longrightarrow> 0 \<le> sim_w sm' ! e ! ia \<and> sim_w sm' ! e ! ia \<le> 1)
                \<and> (a ! e ! ia \<in> set (a_grid par)
                     \<longrightarrow> sim_w sm' ! e ! ia = 0 \<or> sim_w sm' ! e ! ia = 1)
                \<and> (a ! e ! ia < a_grid par ! 0 \<longrightarrow> 1 < sim_w sm' ! e ! ia)
                \<and> (a_grid par ! (Na par - 1) < a ! e ! ia \<longrightarrow> sim_w sm' ! e ! ia < 0))"
proof -
  from find_i_and_w_inv [OF a si sw grid(1,2)] grid(3)
  obtain sm' where r: "find_i_and_w par sm a = Inr sm'" and inv: "fiw_inv par a sm (Ne par) 0 sm'"
    by (auto split: sum.splits)
  have "0 \<le> sim_i sm' ! e ! ia \<and> sim_i sm' ! e ! ia \<le> int (Na par) - 2
                \<and> sim_w sm' ! e ! ia
                    = (a_grid par ! nat (sim_i sm' ! e ! ia + 1) - a ! e ! ia)
                      / (a_grid par ! nat (sim_i sm' ! e ! ia + 1) - a_grid par ! nat (sim_i sm' ! e ! ia))
                \<and> (a_grid par ! 0 \<le> a ! e ! ia \<and> a ! e ! ia \<le> a_grid par ! (Na par - 1)
                     \<longrightarrow> 0 \<le> sim_w sm' ! e ! ia \<and> sim_w sm' ! e ! ia \<le> 1)
                \<and> (a ! e ! ia \<in> set (a_grid par)
                     \<longrightarrow> sim_w sm' ! e ! ia = 0 \<or> sim_w sm' ! e ! ia = 1)
                \<and> (a ! e ! ia < a_grid par ! 0 \<longrightarrow> 1 < sim_w sm' ! e ! ia)
                \<and> (a_grid par ! (Na par - 1) < a ! e ! ia \<longrightarrow> sim_w sm' ! e ! ia < 0)"
    if "e < Ne par" "ia < Na par" for e ia
  proof -
    from inv that have c: "binary_search 0 (a_grid par) (a ! e ! ia) = Inr (sim_i sm' ! e ! ia)"
      "sim_w sm' ! e ! ia = weight_of (a_grid par) (sim_i sm' ! e ! ia) (a ! e ! ia)"
      by (simp_all add: fiw_inv_def cell_ok_def)
    from weight_of_bounds [OF grid(3) _ c(1)] grid(1,2) show ?thesis
      unfolding c(2) by (simp add: weight_of_def)
  qed
  with r show ?thesis by blast
qed

theorem find_i_and_w_index_in_bounds_witness:
  "shape (Ne par_toy) (Na par_toy) [[-1, 1 / 2, 7 :: real]]
   \<and> length (a_grid par_toy) = Na par_toy \<and> 2 \<le> Na par_toy
   \<and> find_i_and_w par_toy \<lparr>sim_i = [[0, 0, 0]], sim_w = [[0, 0, 0]], sim_D = []\<rparr> [[-1, 1 / 2, 7]]
       = Inr \<lparr>sim_i = [[0, 0, 1]], sim_w = [[2, 1 / 2, - 1 / 2]], sim_D = []\<rparr>
   \<and> (0::int) \<le> [[0, 0, 1]] ! 0 ! 2 \<and> [[0, 0, 1]] ! 0 ! 2 \<le> int (Na par_toy) - 2
   \<and> shape (Ne par_toy) (Na par_toy) [[1 / 2, 1 / 4, 1 / 4 :: real]]
   \<and> simulate par_toy \<lparr>sim_i = [[0, 0, 1]], sim_w = [[2, 1 / 2, - 1 / 2]], sim_D = []\<rparr>
         [[1]] [[1 / 2, 1 / 4, 1 / 4]] \<noteq> Inl IndexError"
proof -
  let ?sm = "\<lparr>sim_i = [[0, 0, 0]], sim_w = [[0, 0, 0 :: real]], sim_D = []\<rparr>"
  let ?sm' = "\<lparr>sim_i = [[0, 0, 1]], sim_w = [[2, 1 / 2, - 1 / 2 :: real]], sim_D = []\<rparr>"
  have a: "shape (Ne par_toy) (Na par_toy) [[-1, 1 / 2, 7 :: real]]"
    and si: "shape (Ne par_toy) (Na par_toy) (sim_i ?sm)"
    and sw: "shape (Ne par_toy) (Na par_toy) (sim_w ?sm)"
    and grid: "length (a_grid par_toy) = Na par_toy" "2 \<le> Na par_toy"
    and D: "shape (Ne par_toy) (Na par_toy) [[1 / 2, 1 / 4, 1 / 4 :: real]]"
    by (simp_all add: par_toy_def shape_def)
  have r: "find_i_and_w par_toy ?sm [[-1, 1 / 2, 7]] = Inr ?sm'"
    by code_simp
  from find_i_and_w_index_in_bounds [OF a si sw grid] r D
  have "simulate par_toy ?sm' [[1]] [[1 / 2, 1 / 4, 1 / 4]] \<noteq> Inl IndexError" by blast
  with a grid r D show ?thesis by (simp add: par_toy_def)
qed

theorem find_i_and_w_weights_witness:
  "shape (Ne par_toy) (Na par_toy) [[0, 1 / 2, 5 :: real]]
   \<and> length (a_grid par_toy) = Na par_toy \<and> 2 \<le> Na par_toy \<and> sorted_wrt (<) (a_grid par_toy)
   \<and> a_grid par_toy ! 0 \<le> 1 / 2 \<and> 1 / 2 \<le> a_grid par_toy ! (Na par_toy - 1)
   \<and> 5 \<in> set (a_grid par_toy)
   \<and> find_i_and_w par_toy \<lparr>sim_i = [[0, 0, 0]], sim_w = [[0, 0, 0]], sim_D = []\<rparr> [[0, 1 / 2, 5]]
       = Inr \<lparr>sim_i = [[0, 0, 1]], sim_w = [[1, 1 / 2, 0]], sim_D = []\<rparr>"
proof -
  let ?sm = "\<lparr>sim_i = [[0, 0, 0]], sim_w = [[0, 0, 0 :: real]], sim_D = []\<rparr>"
  have a: "shape (Ne par_toy) (Na par_toy) [[0, 1 / 2, 5 :: real]]"
    and si: "shape (Ne par_toy) (Na par_toy) (sim_i ?sm)"
    and sw: "shape (Ne par_toy) (Na par_toy) (sim_w ?sm)"
    and grid: "length (a_grid par_toy) = Na par_toy" "2 \<le> Na par_toy"
      "sorted_wrt (<) (a_grid par_toy)"
    by (simp_all add: par_toy_def shape_def)
  from find_i_and_w_weights [OF a si sw grid]
  obtain sm' where "find_i_and_w par_toy ?sm [[0, 1 / 2, 5]] = Inr sm'" by blast
  moreover have "find_i_and_w par_toy ?sm [[0, 1 / 2, 5]]
      = Inr \<lparr>sim_i = [[0, 0, 1]], sim_w = [[1, 1 / 2, 0]], sim_D = []\<rparr>"
    by code_simp
  ultimately show ?thesis using a grid by (simp add: par_toy_def)
qed

text \<open>
  C5 as stated fails: on the grid \<open>[0, 1, 5]\<close> the asset choice \<open>-1\<close> gets the weight 2 and
  the asset choice \<open>7\<close> the weight \<open>-1/2\<close>.
\<close>

theorem find_i_and_w_weights_counterexample:
  "find_i_and_w par_toy \<lparr>sim_i = [[0, 0, 0]], sim_w = [[0, 0, 0]], sim_D = []\<rparr> [[-1, 1 / 2, 7]]
     = Inr \<lparr>sim_i = [[0, 0, 1]], sim_w = [[2, 1 / 2, - 1 / 2]], sim_D = []\<rparr>"
  by code_simp

section \<open>Properties of time_iteration\<close>

lemma setrow_in:
  "shape n m A \<Longrightarrow> i < n \<Longrightarrow> length row = m \<Longrightarrow> setrow A (int i) row = Inr (A[i := row])"
  by (simp add: setrow_def shape_length shape_nth)

lemma egm_row_result:
  assumes mu: "shape n k marg" and grid: "length (a_grid par) = k" and k: "0 < k"
    and sg: "sigma par \<noteq> 0" and e: "e < n"
    and hm: "shape n k (h m)" and ha: "shape n k (h a)" and hc: "shape n k (h c)"
    and hV: "shape n k (h Va)"
    and refs: "a \<noteq> c" "a \<noteq> Va" "c \<noteq> Va" "m \<noteq> a" "m \<noteq> c" "m \<noteq> Va"
  shows "egm_row interp par r marg Va a c m e h =
           Inr (h(a := (h a)[e := assets_row interp par (marg ! e) (h m ! e)],
                  c := (h c)[e := consumption_row (h m ! e) (assets_row interp par (marg ! e) (h m ! e))],
                  Va := (h Va)[e := Va_row par r
                     (consumption_row (h m ! e) (assets_row interp par (marg ! e) (h m ! e)))]))"
proof -
  let ?y = "interp_row interp par (marg ! e) (h m ! e)"
  let ?a1 = "(h a)[e := ?y]"
  let ?arow = "assets_row interp par (marg ! e) (h m ! e)"
  let ?a2 = "(h a)[e := ?arow]"
  let ?crow = "consumption_row (h m ! e) ?arow"
  let ?c1 = "(h c)[e := ?crow]"
  have lm: "length (h m ! e) = k" "e < length (h m)" using hm e by (simp_all add: shape_nth shape_length)
  have lmu: "length (marg ! e) = k" "e < length marg" using mu e by (simp_all add: shape_nth shape_length)
  have la: "e < length (h a)" and lc: "e < length (h c)" and lV: "e < length (h Va)"
    using ha hc hV e by (simp_all add: shape_length)
  have ly: "length ?y = k" by (simp add: interp_row_def lm)
  have lar: "length ?arow = k" by (simp add: assets_row_def ly)
  have lcr: "length ?crow = k" by (simp add: consumption_row_def lar lm)
  have s1: "shape n k ?a1" using ha ly by (rule shape_update)
  have 1: "arr_add (map (\<lambda>x. x powr (- 1 / sigma par)) (marg ! e)) (a_grid par)
             = Inr (m_endo_row par (marg ! e))"
    by (simp add: arr_add_def m_endo_row_def lmu grid)
  have 2: "setrow (h a) (int e) (interp_1d_vec interp (m_endo_row par (marg ! e)) (a_grid par) (h m ! e))
             = Inr ?a1"
    using setrow_in [OF ha e ly] by (simp add: interp_1d_vec_def interp_row_def)
  have 3: "getitem2 ?a1 (int e) 0 = Inr (?y ! 0)"
    using getitem2_in [OF s1 e k] la by simp
  have 4: "setitem2 ?a1 (int e) 0 (max (?y ! 0) 0) = Inr ?a2"
    using setitem2_in [OF s1 e k] la by (simp add: assets_row_def)
  have 5: "arr_sub (h m ! e) ?arow = Inr ?crow"
    by (simp add: arr_sub_def consumption_row_def lm lar)
  have 6: "setrow (h c) (int e) ?crow = Inr ?c1"
    by (rule setrow_in [OF hc e lcr])
  have 7: "setrow (h Va) (int e) (Va_row par r ?crow) = Inr ((h Va)[e := Va_row par r ?crow])"
    by (rule setrow_in [OF hV e]) (simp add: Va_row_def lcr)
  show ?thesis
    unfolding egm_row_def
    using refs sg 1 2 3 4 5 6 7 by (simp add: lmu lm la lc Va_row_def [symmetric])
qed

lemma matmul_beta:
  assumes E: "shape n n (e_trans par)" and V: "shape n k V" and n: "0 < n"
  shows "matmul (map (map (\<lambda>x. beta par * x)) (e_trans par)) V = Inr (marg_u_plus par V)"
proof -
  have sE: "shape n n (map (map (\<lambda>x. beta par * x)) (e_trans par))"
    using E by (simp add: shape_def list_all_iff)
  have "(\<Sum>l = 0..<n. map ((*) (beta par)) row ! l * V ! l ! j)
          = beta par * (\<Sum>l = 0..<n. row ! l * V ! l ! j)"
    if "row \<in> set (e_trans par)" for row j
  proof -
    from that E have "length row = n" by (simp add: shape_def list_all_iff)
    then show ?thesis by (simp add: sum_distrib_left mult.assoc)
  qed
  then show ?thesis
    using V n
    by (simp add: matmul_result [OF sE V n] marg_u_plus_def ncols_shape shape_length
        interv_sum_list_conv_sum_set_nat)
qed

lemma marg_u_plus_shape:
  assumes E: "shape n n (e_trans par)" and V: "shape n k V" and n: "0 < n"
  shows "shape n k (marg_u_plus par V)"
  using E V n by (simp add: marg_u_plus_def shape_def ncols_shape [OF V n] list_all_iff)

lemma egm_inv_step:
  assumes mu: "shape (Ne par) (Na par) (marg_u_plus par Va_p)"
    and grid: "length (a_grid par) = Na par" and k: "0 < Na par"
    and sg: "sigma par \<noteq> 0" and e: "e < Ne par"
    and hm: "shape (Ne par) (Na par) (h m)"
    and refs: "a \<noteq> c" "a \<noteq> Va" "c \<noteq> Va" "m \<noteq> a" "m \<noteq> c" "m \<noteq> Va"
    and inv: "egm_inv interp par r Va_p Va a c m h e h'"
  shows "\<exists>h''. egm_row interp par r (marg_u_plus par Va_p) Va a c m e h' = Inr h''
           \<and> egm_inv interp par r Va_p Va a c m h (Suc e) h''"
proof -
  let ?arow = "assets_row interp par (marg_u_plus par Va_p ! e) (h m ! e)"
  let ?crow = "consumption_row (h m ! e) ?arow"
  let ?vrow = "Va_row par r ?crow"
  let ?h'' = "h'(a := (h' a)[e := ?arow], c := (h' c)[e := ?crow], Va := (h' Va)[e := ?vrow])"
  from inv refs have m': "h' m = h m" by (simp add: egm_inv_def)
  from inv have sh: "shape (Ne par) (Na par) (h' a)" "shape (Ne par) (Na par) (h' c)"
    "shape (Ne par) (Na par) (h' Va)" by (simp_all add: egm_inv_def)
  have hm': "shape (Ne par) (Na par) (h' m)" using hm m' by simp
  have r: "egm_row interp par r (marg_u_plus par Va_p) Va a c m e h' = Inr ?h''"
    using egm_row_result [OF mu grid k sg e hm' sh refs, of interp r] by (simp add: m')
  have le: "e < length (h' a)" "e < length (h' c)" "e < length (h' Va)"
    using sh e by (simp_all add: shape_length)
  have lm: "length (h m ! e) = Na par" using hm e by (simp add: shape_nth)
  have lar: "length ?arow = Na par" by (simp add: assets_row_def interp_row_def lm)
  have lcr: "length ?crow = Na par" by (simp add: consumption_row_def lar lm)
  have lvr: "length ?vrow = Na par" by (simp add: Va_row_def lcr)
  have A: "egm_assets interp par Va_p (h m) ! e = ?arow"
    using e by (simp add: egm_assets_def)
  have C: "egm_consumption interp par Va_p (h m) ! e = ?crow"
    using e by (simp add: egm_consumption_def A)
  have V: "egm_Va interp par r Va_p (h m) ! e = ?vrow"
    using e by (simp add: egm_Va_def C)
  have "egm_inv interp par r Va_p Va a c m h (Suc e) ?h''"
    unfolding egm_inv_def
  proof (intro conjI allI impI)
    fix p assume "p \<noteq> a \<and> p \<noteq> c \<and> p \<noteq> Va"
    with inv show "?h'' p = h p" by (simp add: egm_inv_def)
  next
    show "shape (Ne par) (Na par) (?h'' a)" using refs sh(1) lar by (simp add: shape_update)
    show "shape (Ne par) (Na par) (?h'' c)" using refs sh(2) lcr by (simp add: shape_update)
    show "shape (Ne par) (Na par) (?h'' Va)" using refs sh(3) lvr by (simp add: shape_update)
  next
    fix e' assume "e' < Ne par"
    with inv have o: "h' a ! e' = (if e' < e then egm_assets interp par Va_p (h m) ! e' else h a ! e')"
      by (simp add: egm_inv_def)
    show "?h'' a ! e' = (if e' < Suc e then egm_assets interp par Va_p (h m) ! e' else h a ! e')"
      using refs le o A by (cases "e' = e") (auto simp: less_Suc_eq)
  next
    fix e' assume "e' < Ne par"
    with inv have o: "h' c ! e' = (if e' < e then egm_consumption interp par Va_p (h m) ! e' else h c ! e')"
      by (simp add: egm_inv_def)
    show "?h'' c ! e' = (if e' < Suc e then egm_consumption interp par Va_p (h m) ! e' else h c ! e')"
      using refs le o C by (cases "e' = e") (auto simp: less_Suc_eq)
  next
    fix e' assume "e' < Ne par"
    with inv have o: "h' Va ! e' = (if e' < e then egm_Va interp par r Va_p (h m) ! e' else h Va ! e')"
      by (simp add: egm_inv_def)
    show "?h'' Va ! e' = (if e' < Suc e then egm_Va interp par r Va_p (h m) ! e' else h Va ! e')"
      using refs le o V by (cases "e' = e") (auto simp: less_Suc_eq)
  qed
  with r show ?thesis by blast
qed

lemma time_iteration_result:
  assumes E: "shape (Ne par) (Ne par) (e_trans par)"
    and grid: "length (a_grid par) = Na par" and n: "0 < Ne par" and k: "0 < Na par"
    and sg: "sigma par \<noteq> 0"
    and hp: "shape (Ne par) (Na par) (h Va_p)"
    and hm: "shape (Ne par) (Na par) (h m)" and ha: "shape (Ne par) (Na par) (h a)"
    and hc: "shape (Ne par) (Na par) (h c)" and hV: "shape (Ne par) (Na par) (h Va)"
    and refs: "a \<noteq> c" "a \<noteq> Va" "c \<noteq> Va" "m \<noteq> a" "m \<noteq> c" "m \<noteq> Va"
  shows "time_iteration interp par r w Va_p Va a c m h =
           Inr (h(a := egm_assets interp par (h Va_p) (h m),
                  c := egm_consumption interp par (h Va_p) (h m),
                  Va := egm_Va interp par r (h Va_p) (h m)))"
proof -
  let ?mu = "marg_u_plus par (h Va_p)"
  have mu: "shape (Ne par) (Na par) ?mu" by (rule marg_u_plus_shape [OF E hp n])
  have init: "egm_inv interp par r (h Va_p) Va a c m h 0 h"
    using ha hc hV by (simp add: egm_inv_def)
  have "case foldM (egm_row interp par r ?mu Va a c m) [0..<Ne par] h of
          Inl err \<Rightarrow> False | Inr h' \<Rightarrow> egm_inv interp par r (h Va_p) Va a c m h (Ne par) h'"
  proof (rule foldM_upt_inv [where I = "egm_inv interp par r (h Va_p) Va a c m h"])
    fix e s assume e: "e < Ne par" and s: "egm_inv interp par r (h Va_p) Va a c m h e s"
    from egm_inv_step [OF mu grid k sg e hm refs s]
    show "case egm_row interp par r ?mu Va a c m e s of Inl err \<Rightarrow> False
            | Inr s' \<Rightarrow> egm_inv interp par r (h Va_p) Va a c m h (Suc e) s'" by auto
  qed (rule init)
  then obtain h' where h': "foldM (egm_row interp par r ?mu Va a c m) [0..<Ne par] h = Inr h'"
    "egm_inv interp par r (h Va_p) Va a c m h (Ne par) h'" by (auto split: sum.splits)
  have len: "length (egm_assets interp par (h Va_p) (h m)) = Ne par"
    "length (egm_consumption interp par (h Va_p) (h m)) = Ne par"
    "length (egm_Va interp par r (h Va_p) (h m)) = Ne par"
    by (simp_all add: egm_assets_def egm_consumption_def egm_Va_def)
  have "h' a = egm_assets interp par (h Va_p) (h m)"
    using h'(2) len by (intro nth_equalityI) (simp_all add: egm_inv_def shape_def)
  moreover have "h' c = egm_consumption interp par (h Va_p) (h m)"
    using h'(2) len by (intro nth_equalityI) (simp_all add: egm_inv_def shape_def)
  moreover have "h' Va = egm_Va interp par r (h Va_p) (h m)"
    using h'(2) len by (intro nth_equalityI) (simp_all add: egm_inv_def shape_def)
  moreover have "h' p = h p" if "p \<noteq> a" "p \<noteq> c" "p \<noteq> Va" for p
    using h'(2) that by (simp add: egm_inv_def)
  ultimately have "h' = h(a := egm_assets interp par (h Va_p) (h m),
                  c := egm_consumption interp par (h Va_p) (h m),
                  Va := egm_Va interp par r (h Va_p) (h m))"
    using refs by (intro ext) auto
  with h'(1) show ?thesis
    by (simp add: time_iteration_def matmul_beta [OF E hp n])
qed

lemma time_iteration_wf:
  assumes "egm_wf par Va_p Va a c m h"
  shows "time_iteration interp par r w Va_p Va a c m h =
           Inr (h(a := egm_assets interp par (h Va_p) (h m),
                  c := egm_consumption interp par (h Va_p) (h m),
                  Va := egm_Va interp par r (h Va_p) (h m)))"
  using assms unfolding egm_wf_def by (intro time_iteration_result) simp_all

lemma par_toy_sel:
  "Ne par_toy = 1" "Na par_toy = 3" "sigma par_toy = 1" "beta par_toy = 19 / 20"
  "a_grid par_toy = [0, 1, 5]" "e_trans par_toy = [[1]]"
  by (simp_all add: par_toy_def)

lemma store_toy_sel:
  "store_toy 0 = [[5 / 19, 5 / 38, 5 / 76]]" "store_toy 1 = [[0, 0, 0]]" "store_toy 2 = [[0, 0, 0]]"
  "store_toy 3 = [[0, 0, 0]]" "store_toy 4 = [[1, 41 / 20, 25 / 4]]"
  "store_toy (Suc 0) = [[0, 0, 0]]"
  by (simp_all add: store_toy_def)

lemma egm_wf_toy: "egm_wf par_toy 0 1 2 3 4 store_toy"
  by (simp add: egm_wf_def par_toy_sel store_toy_sel shape_def)

lemma marg_u_plus_toy: "marg_u_plus par_toy [[5 / 19, 5 / 38, 5 / 76]] = [[1 / 4, 1 / 8, 1 / 16]]"
  by (simp add: marg_u_plus_def par_toy_sel ncols_def upt_rec)

lemma m_endo_row_toy: "m_endo_row par_toy [1 / 4, 1 / 8, 1 / 16] = [4, 9, 21]"
  by (simp add: m_endo_row_def par_toy_sel powr_minus_divide)

lemma interp_row_toy:
  "interp_row interp_1d par_toy [1 / 4, 1 / 8, 1 / 16] [1, 41 / 20, 25 / 4]
     = [- 3 / 5, - 39 / 100, 9 / 20]"
  unfolding interp_row_def m_endo_row_toy
  by (simp add: interp_1d_def par_toy_sel binary_search_def binary_search_loop.simps getitem_def)

lemma egm_assets_toy:
  "egm_assets interp_1d par_toy [[5 / 19, 5 / 38, 5 / 76]] [[1, 41 / 20, 25 / 4]]
     = [[0, - 39 / 100, 9 / 20]]"
  by (simp add: egm_assets_def marg_u_plus_toy assets_row_def interp_row_toy par_toy_sel)

lemma egm_consumption_toy:
  "egm_consumption interp_1d par_toy [[5 / 19, 5 / 38, 5 / 76]] [[1, 41 / 20, 25 / 4]]
     = [[1, 61 / 25, 29 / 5]]"
  by (simp add: egm_consumption_def egm_assets_toy consumption_row_def par_toy_sel)

lemma egm_Va_toy:
  "egm_Va interp_1d par_toy (1 / 20) [[5 / 19, 5 / 38, 5 / 76]] [[1, 41 / 20, 25 / 4]]
     = [[21 / 20, 105 / 244, 21 / 116]]"
  by (simp add: egm_Va_def egm_consumption_toy Va_row_def par_toy_sel powr_minus_divide)

lemma time_iteration_toy:
  "time_iteration interp_1d par_toy (1 / 20) 1 0 1 2 3 4 store_toy
     = Inr (store_toy(2 := [[0, - 39 / 100, 9 / 20]], 3 := [[1, 61 / 25, 29 / 5]],
              1 := [[21 / 20, 105 / 244, 21 / 116]]))"
  by (simp only: time_iteration_wf [OF egm_wf_toy] store_toy_sel egm_assets_toy
      egm_consumption_toy egm_Va_toy)

lemma egm_assets_nth:
  assumes "egm_wf par Va_p Va a c m h" and e: "e < Ne par" and j: "j < Na par"
  shows "egm_assets interp par (h Va_p) (h m) ! e ! j
           = (if j = 0
              then max (interp (m_endo_row par (marg_u_plus par (h Va_p) ! e)) (a_grid par) (h m ! e ! j)) 0
              else interp (m_endo_row par (marg_u_plus par (h Va_p) ! e)) (a_grid par) (h m ! e ! j))"
proof -
  from assms have "shape (Ne par) (Na par) (h m)" by (simp add: egm_wf_def)
  from shape_nth [OF this e] have "length (h m ! e) = Na par" .
  with e j show ?thesis
    by (simp add: egm_assets_def assets_row_def interp_row_def nth_list_update)
qed

lemma egm_assets_length:
  assumes "egm_wf par Va_p Va a c m h" and e: "e < Ne par"
  shows "length (egm_assets interp par (h Va_p) (h m) ! e) = Na par"
proof -
  from assms have "shape (Ne par) (Na par) (h m)" by (simp add: egm_wf_def)
  from shape_nth [OF this e] have "length (h m ! e) = Na par" .
  with e show ?thesis by (simp add: egm_assets_def assets_row_def interp_row_def)
qed

lemma egm_consumption_nth:
  assumes wf: "egm_wf par Va_p Va a c m h" and e: "e < Ne par" and j: "j < Na par"
  shows "egm_consumption interp par (h Va_p) (h m) ! e ! j
           = h m ! e ! j - egm_assets interp par (h Va_p) (h m) ! e ! j"
proof -
  from wf have "shape (Ne par) (Na par) (h m)" by (simp add: egm_wf_def)
  from shape_nth [OF this e] have "length (h m ! e) = Na par" .
  with e j egm_assets_length [OF wf e, of interp] show ?thesis
    by (simp add: egm_consumption_def consumption_row_def)
qed

text \<open>
  C2, amended.  On well-formed arguments \<open>time_iteration\<close> returns, and it computes exactly:
  \<open>marg_u_plus = beta \<cdot> (transition @ Va_p)\<close>; for every income state \<open>e\<close>,
  \<open>c_endo = marg_u_plus[e,:]^(-1/sigma)\<close>, \<open>m_endo = c_endo + assetGrid\<close>, \<open>assets[e,:]\<close> the
  interpolation of \<open>m[e,:]\<close> against \<open>(m_endo, assetGrid)\<close> with \<open>assets[e,0]\<close> then replaced
  by \<open>max(assets[e,0], 0)\<close>, \<open>consumption[e,:] = m[e,:] - assets[e,:]\<close> and
  \<open>Va[e,:] = (1+r) \<cdot> consumption[e,:]^(-sigma)\<close>; no other array changes.
\<close>

theorem time_iteration_step:
  assumes "egm_wf par Va_p Va a c m h"
  shows "\<exists>h'. time_iteration interp par r w Va_p Va a c m h = Inr h'
           \<and> h' a = egm_assets interp par (h Va_p) (h m)
           \<and> h' c = egm_consumption interp par (h Va_p) (h m)
           \<and> h' Va = egm_Va interp par r (h Va_p) (h m)
           \<and> (\<forall>p. p \<noteq> a \<and> p \<noteq> c \<and> p \<noteq> Va \<longrightarrow> h' p = h p)"
proof -
  from assms have "a \<noteq> c" "a \<noteq> Va" "c \<noteq> Va" by (simp_all add: egm_wf_def)
  then show ?thesis by (simp add: time_iteration_wf [OF assms])
qed

theorem time_iteration_step_witness:
  "egm_wf par_toy 0 1 2 3 4 store_toy
   \<and> (\<exists>h'. time_iteration interp_1d par_toy (1 / 20) 1 0 1 2 3 4 store_toy = Inr h'
        \<and> h' 2 = [[0, - 39 / 100, 9 / 20]] \<and> h' 3 = [[1, 61 / 25, 29 / 5]]
        \<and> h' 1 = [[21 / 20, 105 / 244, 21 / 116]] \<and> h' 4 = store_toy 4)"
proof -
  from time_iteration_step [OF egm_wf_toy, of interp_1d "1 / 20" 1]
  obtain h' where "time_iteration interp_1d par_toy (1 / 20) 1 0 1 2 3 4 store_toy = Inr h'"
    "h' 2 = egm_assets interp_1d par_toy (store_toy 0) (store_toy 4)"
    "h' 3 = egm_consumption interp_1d par_toy (store_toy 0) (store_toy 4)"
    "h' 1 = egm_Va interp_1d par_toy (1 / 20) (store_toy 0) (store_toy 4)"
    "h' 4 = store_toy 4" by auto
  then show ?thesis
    using egm_wf_toy
    by (simp only: store_toy_sel egm_assets_toy egm_consumption_toy egm_Va_toy) blast
qed

text \<open>
  C2 as stated fails where the interpolated value of the first cell is negative: for
  \<open>m_endo = [4, 9, 21]\<close> and \<open>m = [1, 2.05, 6.25]\<close> the step stores the assets
  \<open>[0, -0.39, 0.45]\<close>, the consumption \<open>[1, 2.44, 5.8]\<close> and \<open>Va[0,0] = 1.05\<close>, while the claim's
  formulas give the assets \<open>[-0.6, -0.39, 0.45]\<close>, the consumption \<open>[1.6, 2.44, 5.8]\<close> and
  \<open>Va[0,0] = 21/32\<close>.
\<close>

theorem time_iteration_step_counterexample:
  "time_iteration interp_1d par_toy (1 / 20) 1 0 1 2 3 4 store_toy
     = Inr (store_toy(2 := [[0, - 39 / 100, 9 / 20]], 3 := [[1, 61 / 25, 29 / 5]],
              1 := [[21 / 20, 105 / 244, 21 / 116]]))
   \<and> claimed_assets interp_1d par_toy (store_toy 0) (store_toy 4) = [[- 3 / 5, - 39 / 100, 9 / 20]]
   \<and> claimed_consumption interp_1d par_toy (store_toy 0) (store_toy 4) = [[8 / 5, 61 / 25, 29 / 5]]
   \<and> claimed_Va interp_1d par_toy (1 / 20) (store_toy 0) (store_toy 4)
        = [[21 / 32, 105 / 244, 21 / 116]]"
proof -
  have 1: "claimed_assets interp_1d par_toy (store_toy 0) (store_toy 4)
      = [[- 3 / 5, - 39 / 100, 9 / 20]]"
    by (simp add: claimed_assets_def store_toy_sel marg_u_plus_toy interp_row_toy par_toy_sel)
  have 2: "claimed_consumption interp_1d par_toy (store_toy 0) (store_toy 4)
      = [[8 / 5, 61 / 25, 29 / 5]]"
    unfolding claimed_consumption_def 1 by (simp add: store_toy_sel consumption_row_def par_toy_sel)
  have 3: "claimed_Va interp_1d par_toy (1 / 20) (store_toy 0) (store_toy 4)
        = [[21 / 32, 105 / 244, 21 / 116]]"
    unfolding claimed_Va_def 2 by (simp add: Va_row_def par_toy_sel powr_minus_divide)
  from time_iteration_toy 1 2 3 show ?thesis by simp
qed

text \<open>
  C7, amended.  The step computes \<open>consumption[e,:] = cashOnHand[e,:] - assets[e,:]\<close> from
  the assets after the borrowing constraint has been applied, so in exact arithmetic
  \<open>consumption[e,a] + assets[e,a] = cashOnHand[e,a]\<close> holds in every cell.
\<close>

theorem time_iteration_budget:
  assumes "egm_wf par Va_p Va a c m h"
  shows "\<exists>h'. time_iteration interp par r w Va_p Va a c m h = Inr h' \<and> h' m = h m
           \<and> (\<forall>e < Ne par. \<forall>j < Na par. h' c ! e ! j + h' a ! e ! j = h' m ! e ! j)"
proof -
  from assms have refs: "a \<noteq> c" "a \<noteq> Va" "c \<noteq> Va" "m \<noteq> a" "m \<noteq> c" "m \<noteq> Va"
    by (simp_all add: egm_wf_def)
  show ?thesis
    using refs by (simp add: time_iteration_wf [OF assms] egm_consumption_nth [OF assms])
qed

theorem time_iteration_budget_witness:
  "egm_wf par_toy 0 1 2 3 4 store_toy
   \<and> (\<exists>h'. time_iteration interp_1d par_toy (1 / 20) 1 0 1 2 3 4 store_toy = Inr h'
        \<and> h' 3 ! 0 ! 1 + h' 2 ! 0 ! 1 = h' 4 ! 0 ! 1 \<and> h' 4 ! 0 ! 1 = 41 / 20)"
proof -
  from time_iteration_budget [OF egm_wf_toy, of interp_1d "1 / 20" 1]
  obtain h' where h': "time_iteration interp_1d par_toy (1 / 20) 1 0 1 2 3 4 store_toy = Inr h'"
    "h' 4 = store_toy 4"
    "\<forall>e < Ne par_toy. \<forall>j < Na par_toy. h' 3 ! e ! j + h' 2 ! e ! j = h' 4 ! e ! j" by blast
  from h'(3) have "h' 3 ! 0 ! 1 + h' 2 ! 0 ! 1 = h' 4 ! 0 ! 1" by (simp add: par_toy_sel)
  moreover from h'(2) have "h' 4 ! 0 ! 1 = 41 / 20" by (simp add: store_toy_sel)
  ultimately show ?thesis using h'(1) egm_wf_toy by blast
qed

lemma f64_value_inj: "f64_value (M, E) = f64_value (N, E) \<longleftrightarrow> M = N"
  by (simp add: f64_value_def)

text \<open>
  C7 as stated fails in float64, the arithmetic of the program: for \<open>m\<close> the double
  nearest to \<open>0.11\<close> and \<open>a\<close> the double nearest to \<open>0.04\<close>, line 302 stores
  \<open>c = m - a\<close> rounded, and \<open>c + a\<close> rounded is the double after \<open>m\<close>, so
  \<open>consumption + assets == cashOnHand\<close> is false in that cell.
\<close>

theorem time_iteration_budget_counterexample:
  "\<bar>f64_value (7926335344172073, - 56) - 11 / 100\<bar> \<le> 1 / 2 ^ 57
   \<and> \<bar>f64_value (5764607523034235, - 57) - 4 / 100\<bar> \<le> 1 / 2 ^ 58
   \<and> consumption_row_f64 [(7926335344172073, - 56)] [(5764607523034235, - 57)]
       = [(5044031582654956, - 56)]
   \<and> f64_add (5044031582654956, - 56) (5764607523034235, - 57) = (7926335344172074, - 56)
   \<and> f64_value (7926335344172074, - 56) \<noteq> f64_value (7926335344172073, - 56)"
proof -
  have 0: "\<bar>f64_value (7926335344172073, - 56) - 11 / 100\<bar> \<le> 1 / 2 ^ 57"
    "\<bar>f64_value (5764607523034235, - 57) - 4 / 100\<bar> \<le> 1 / 2 ^ 58"
    by (simp_all add: f64_value_def power_int_minus field_simps)
  have 1: "consumption_row_f64 [(7926335344172073, - 56)] [(5764607523034235, - 57)]
     = [(5044031582654956, - 56)]"
    by code_simp
  have 2: "f64_add (5044031582654956, - 56) (5764607523034235, - 57) = (7926335344172074, - 56)"
    by code_simp
  have 3: "f64_value (7926335344172074, - 56) \<noteq> f64_value (7926335344172073, - 56)"
    by (simp add: f64_value_inj)
  from 0 1 2 3 show ?thesis by blast
qed

text \<open>
  What line 301 enforces: after the step \<open>assets[e,0] \<ge> 0\<close> for every income state \<open>e\<close>,
  and the other cells hold the interpolated values as they are.
\<close>

lemma time_iteration_clamp_first_cell:
  assumes "egm_wf par Va_p Va a c m h"
  shows "\<exists>h'. time_iteration interp par r w Va_p Va a c m h = Inr h'
           \<and> (\<forall>e < Ne par. 0 \<le> h' a ! e ! 0
                \<and> (\<forall>j < Na par. 0 < j \<longrightarrow>
                      h' a ! e ! j = interp (m_endo_row par (marg_u_plus par (h Va_p) ! e))
                                        (a_grid par) (h m ! e ! j)))"
proof -
  from assms have refs: "a \<noteq> c" "a \<noteq> Va" "c \<noteq> Va" and k: "0 < Na par"
    by (simp_all add: egm_wf_def)
  show ?thesis
    using refs k by (simp add: time_iteration_wf [OF assms] egm_assets_nth [OF assms])
qed

text \<open>
  C6.  The borrowing constraint asks for \<open>assets[e,a] \<ge> 0\<close> in every cell after the step.
  Line 301 applies \<open>fmax\<close> to \<open>a[i_e,0]\<close> alone: on the three-point grid, with
  \<open>r = 0.05\<close>, the endogenous grid \<open>[4, 9, 21]\<close> and cash-on-hand \<open>[1, 2.05, 6.25]\<close>, the
  step returns \<open>assets[0,1] = -0.39\<close>, a negative asset holding.
\<close>

theorem time_iteration_negative_assets:
  "(case time_iteration interp_1d par_toy (1 / 20) 1 0 1 2 3 4 store_toy of
      Inl e \<Rightarrow> False
    | Inr h' \<Rightarrow> h' 2 ! 0 ! 1 = - 39 / 100 \<and> h' 2 ! 0 ! 1 < 0)"
  using time_iteration_toy by simp

lemma egm_row_frame:
  assumes "p \<noteq> Va" "p \<noteq> a" "p \<noteq> c" "p \<noteq> m"
  shows "egm_row interp par r mu Va a c m e (h(p := X))
           = (case egm_row interp par r mu Va a c m e h of
                Inl err \<Rightarrow> Inl err
              | Inr h' \<Rightarrow> Inr (h'(p := X)))"
proof -
  have tw: "(h(p := X))(a := A, c := C, Va := V) = (h(a := A, c := C, Va := V))(p := X)" for A C V
    using assms by (auto simp: fun_eq_iff)
  have rd: "(h(p := X)) m = h m" "(h(p := X)) a = h a" "(h(p := X)) c = h c" "(h(p := X)) Va = h Va"
    "\<And>A. (h(p := X, a := A)) m = (h(a := A)) m" "\<And>A. (h(p := X, a := A)) c = (h(a := A)) c"
    "\<And>A C. (h(p := X, a := A, c := C)) c = (h(a := A, c := C)) c"
    "\<And>A C. (h(p := X, a := A, c := C)) Va = (h(a := A, c := C)) Va"
    using assms by auto
  show ?thesis
    unfolding egm_row_def rd tw by (simp split: sum.splits)
qed

lemma foldM_frame:
  assumes "\<And>x s. f x (s(p := X)) = (case f x s of Inl err \<Rightarrow> Inl err | Inr s' \<Rightarrow> Inr (s'(p := X)))"
  shows "foldM f xs (s(p := X)) = (case foldM f xs s of Inl err \<Rightarrow> Inl err | Inr s' \<Rightarrow> Inr (s'(p := X)))"
proof (induction xs arbitrary: s)
  case Nil
  have "foldM f [] (s(p := X)) = Inr (s(p := X))" by (simp only: foldM.simps)
  moreover have "foldM f [] s = Inr s" by (simp only: foldM.simps)
  ultimately show ?case by (simp only: sum.case)
next
  case (Cons x xs)
  show ?case
  proof (cases "f x s")
    case (Inl err)
    then show ?thesis by (simp only: foldM.simps assms sum.case)
  next
    case (Inr s')
    then show ?thesis by (simp only: foldM.simps assms sum.case Cons.IH)
  qed
qed

text \<open>
  C9.  \<open>solve_household_ss\<close> passes \<open>sol.Va\<close> both as \<open>Va_p\<close> and as \<open>Va\<close>.  Let \<open>p\<close> be a
  reference different from \<open>Va\<close>, \<open>a\<close>, \<open>c\<close> and \<open>m\<close>.  The call with \<open>Va_p\<close> copied to \<open>p\<close>
  fails exactly when the in-place call fails, with the same error, and otherwise leaves
  the store of the in-place call, with the copy still at \<open>p\<close>: the same assets,
  consumption and marginal value.  (\<open>marg_u_plus\<close> is computed before the loop writes.)
\<close>

theorem time_iteration_in_place:
  assumes "p \<noteq> Va" "p \<noteq> a" "p \<noteq> c" "p \<noteq> m"
  shows "time_iteration interp par r w p Va a c m (h(p := h Va))
           = (case time_iteration interp par r w Va Va a c m h of
                Inl err \<Rightarrow> Inl err
              | Inr h' \<Rightarrow> Inr (h'(p := h Va)))"
proof -
  have "foldM (egm_row interp par r mu Va a c m) [0..<Ne par] (h(p := h Va))
          = (case foldM (egm_row interp par r mu Va a c m) [0..<Ne par] h of
               Inl err \<Rightarrow> Inl err
             | Inr h' \<Rightarrow> Inr (h'(p := h Va)))" for mu
    by (rule foldM_frame) (rule egm_row_frame [OF assms])
  then show ?thesis
    by (simp add: time_iteration_def split: sum.splits)
qed

theorem time_iteration_in_place_witness:
  "(0::nat) \<noteq> 1 \<and> (0::nat) \<noteq> 2 \<and> (0::nat) \<noteq> 3 \<and> (0::nat) \<noteq> 4
   \<and> (\<exists>h'. time_iteration interp_1d par_toy (1 / 20) 1 1 1 2 3 4 (store_toy(1 := store_toy 0)) = Inr h'
        \<and> h' 2 = [[0, - 39 / 100, 9 / 20]] \<and> h' 3 = [[1, 61 / 25, 29 / 5]]
        \<and> h' 1 = [[21 / 20, 105 / 244, 21 / 116]])"
proof -
  let ?h = "store_toy(1 := store_toy 0)"
  have sel: "?h 0 = [[5 / 19, 5 / 38, 5 / 76]]" "?h 4 = [[1, 41 / 20, 25 / 4]]"
    by (simp_all add: store_toy_sel)
  have same: "?h(0 := ?h 1) = ?h" by (simp add: fun_eq_iff)
  have wf: "egm_wf par_toy 0 1 2 3 4 ?h"
    by (simp add: egm_wf_def par_toy_sel store_toy_sel shape_def)
  have "time_iteration interp_1d par_toy (1 / 20) 1 0 1 2 3 4 (?h(0 := ?h 1))
      = Inr (?h(2 := [[0, - 39 / 100, 9 / 20]], 3 := [[1, 61 / 25, 29 / 5]],
              1 := [[21 / 20, 105 / 244, 21 / 116]]))"
    unfolding same
    by (simp only: time_iteration_wf [OF wf] sel egm_assets_toy egm_consumption_toy egm_Va_toy)
  with time_iteration_in_place [of 0 1 2 3 4 interp_1d par_toy "1 / 20" 1 ?h]
  obtain h' where h': "time_iteration interp_1d par_toy (1 / 20) 1 1 1 2 3 4 ?h = Inr h'"
    "h'(0 := ?h 1) = ?h(2 := [[0, - 39 / 100, 9 / 20]], 3 := [[1, 61 / 25, 29 / 5]],
              1 := [[21 / 20, 105 / 244, 21 / 116]])"
    by (auto split: sum.splits)
  from h'(2) have "(h'(0 := ?h 1)) 2 = [[0, - 39 / 100, 9 / 20]]"
    "(h'(0 := ?h 1)) 3 = [[1, 61 / 25, 29 / 5]]"
    "(h'(0 := ?h 1)) 1 = [[21 / 20, 105 / 244, 21 / 116]]" by simp_all
  then have "h' 2 = [[0, - 39 / 100, 9 / 20]]" "h' 3 = [[1, 61 / 25, 29 / 5]]"
    "h' 1 = [[21 / 20, 105 / 244, 21 / 116]]" by simp_all
  with h'(1) show ?thesis by simp
qed

text \<open>
  C8.  The assets of a row should not decrease as cash-on-hand increases.  On the same
  input the endogenous grid \<open>[4, 9, 21]\<close> is increasing and \<open>m[0,0] = 1 \<le> m[0,1] = 2.05\<close>,
  but line 301 lifts \<open>assets[0,0]\<close> to \<open>0\<close> and leaves \<open>assets[0,1] = -0.39\<close>: the step
  returns a row of assets that decreases.
\<close>

theorem time_iteration_assets_not_monotone:
  "store_toy 4 ! 0 ! 0 \<le> store_toy 4 ! 0 ! 1
   \<and> (case time_iteration interp_1d par_toy (1 / 20) 1 0 1 2 3 4 store_toy of
        Inl e \<Rightarrow> False
      | Inr h' \<Rightarrow> h' 2 ! 0 ! 0 = 0 \<and> h' 2 ! 0 ! 1 = - 39 / 100 \<and> \<not> h' 2 ! 0 ! 0 \<le> h' 2 ! 0 ! 1)"
  using time_iteration_toy by (simp add: store_toy_sel)

section \<open>The fixed-point loops\<close>

lemma max_abs_diff_Inr:
  assumes A: "shape n k A" and B: "shape n k B" and n: "0 < n" and k: "0 < k"
  shows "\<exists>d. max_abs_diff A B = Inr d"
proof -
  obtain a A' where a: "A = a # A'" using A n by (cases A) (auto simp: shape_def)
  obtain b B' where b: "B = b # B'" using B n by (cases B) (auto simp: shape_def)
  have "length a = k" "length b = k" using A B a b by (simp_all add: shape_def)
  then obtain x a' y b' where "a = x # a'" "b = y # b'" using k
    by (cases a; cases b) auto
  then show ?thesis by (simp add: max_abs_diff_def np_max_def a b)
qed

lemma egm_shapes:
  assumes "egm_wf par Va_p Va a c m h"
  shows "shape (Ne par) (Na par) (egm_assets interp par (h Va_p) (h m))"
    and "shape (Ne par) (Na par) (egm_consumption interp par (h Va_p) (h m))"
    and "shape (Ne par) (Na par) (egm_Va interp par r (h Va_p) (h m))"
proof -
  from assms have hm: "shape (Ne par) (Na par) (h m)" by (simp add: egm_wf_def)
  have la: "length (egm_assets interp par (h Va_p) (h m) ! e) = Na par" if "e < Ne par" for e
    by (rule egm_assets_length [OF assms that])
  have lc: "length (egm_consumption interp par (h Va_p) (h m) ! e) = Na par" if "e < Ne par" for e
    using that la [OF that] shape_nth [OF hm that]
    by (simp add: egm_consumption_def consumption_row_def)
  have lv: "length (egm_Va interp par r (h Va_p) (h m) ! e) = Na par" if "e < Ne par" for e
    using that lc [OF that] by (simp add: egm_Va_def Va_row_def)
  show "shape (Ne par) (Na par) (egm_assets interp par (h Va_p) (h m))"
    using la by (simp add: shape_def list_all_length egm_assets_def)
  show "shape (Ne par) (Na par) (egm_consumption interp par (h Va_p) (h m))"
    using lc by (simp add: shape_def list_all_length egm_consumption_def)
  show "shape (Ne par) (Na par) (egm_Va interp par r (h Va_p) (h m))"
    using lv by (simp add: shape_def list_all_length egm_Va_def)
qed

lemma solve_wf_step:
  assumes "solve_wf par sl h"
  shows "\<exists>h'. time_iteration interp par r w (sol_Va sl) (sol_Va sl) (sol_a sl) (sol_c sl) (sol_m sl) h = Inr h'
           \<and> solve_wf par sl h' \<and> (\<exists>d. max_abs_diff (h' (sol_a sl)) (h (sol_a sl)) = Inr d)"
proof -
  from assms have wf: "egm_wf par (sol_Va sl) (sol_Va sl) (sol_a sl) (sol_c sl) (sol_m sl) h"
    by (simp add: solve_wf_def)
  let ?h' = "h(sol_a sl := egm_assets interp par (h (sol_Va sl)) (h (sol_m sl)),
               sol_c sl := egm_consumption interp par (h (sol_Va sl)) (h (sol_m sl)),
               sol_Va sl := egm_Va interp par r (h (sol_Va sl)) (h (sol_m sl)))"
  have r: "time_iteration interp par r w (sol_Va sl) (sol_Va sl) (sol_a sl) (sol_c sl) (sol_m sl) h = Inr ?h'"
    by (rule time_iteration_wf [OF wf])
  note sh = egm_shapes [OF wf]
  have wf': "solve_wf par sl ?h'"
    using wf sh by (simp add: solve_wf_def egm_wf_def)
  from wf have "a_ok": "shape (Ne par) (Na par) (h (sol_a sl))" "0 < Ne par" "0 < Na par"
    "sol_a sl \<noteq> sol_c sl" "sol_a sl \<noteq> sol_Va sl"
    by (simp_all add: egm_wf_def)
  have "\<exists>d. max_abs_diff (?h' (sol_a sl)) (h (sol_a sl)) = Inr d"
    using a_ok sh(1) by (intro max_abs_diff_Inr [where n = "Ne par" and k = "Na par"]) simp_all
  with r wf' show ?thesis by blast
qed

lemma solve_loop_char:
  assumes "solve_wf par sl h" and "it \<le> max_iter_solve par"
  shows "(\<exists>k hk h'. it + int k \<le> max_iter_solve par
            \<and> solve_converged interp par r w sl k h
            \<and> (\<forall>j < k. \<not> solve_converged interp par r w sl j h)
            \<and> solve_iterate interp par r w sl k h = Inr hk
            \<and> time_iteration interp par r w (sol_Va sl) (sol_Va sl) (sol_a sl) (sol_c sl) (sol_m sl) hk = Inr h'
            \<and> solve_household_ss_loop interp par r w sl it h = Inr (it + int k, h'))
         \<or> ((\<forall>k. it + int k \<le> max_iter_solve par \<longrightarrow> \<not> solve_converged interp par r w sl k h)
            \<and> solve_household_ss_loop interp par r w sl it h = Inl TooManyIterations)"
  using assms
proof (induction interp par r w sl it h rule: solve_household_ss_loop.induct)
  case (1 interp par r w sl it h)
  let ?step = "time_iteration interp par r w (sol_Va sl) (sol_Va sl) (sol_a sl) (sol_c sl) (sol_m sl)"
  from solve_wf_step [OF "1.prems"(1), of interp r w]
  obtain h1 d where s: "?step h = Inr h1" "solve_wf par sl h1"
    "max_abs_diff (h1 (sol_a sl)) (h (sol_a sl)) = Inr d" by blast
  have c0: "solve_converged interp par r w sl 0 h = (d < solve_tol par)"
    by (simp add: solve_converged_def s)
  have cS: "solve_converged interp par r w sl (Suc k) h = solve_converged interp par r w sl k h1" for k
    by (simp add: solve_converged_def s)
  show ?case
  proof (cases "d < solve_tol par")
    case True
    have "solve_household_ss_loop interp par r w sl it h = Inr (it, h1)"
      by (subst solve_household_ss_loop.simps) (simp add: s True)
    with True c0 s(1) "1.prems"(2) have
      "it + int 0 \<le> max_iter_solve par \<and> solve_converged interp par r w sl 0 h
        \<and> (\<forall>j < 0. \<not> solve_converged interp par r w sl j h)
        \<and> solve_iterate interp par r w sl 0 h = Inr h
        \<and> ?step h = Inr h1
        \<and> solve_household_ss_loop interp par r w sl it h = Inr (it + int 0, h1)" by simp
    then show ?thesis by blast
  next
    case False
    note nc = False
    show ?thesis
    proof (cases "it + 1 > max_iter_solve par")
      case True
      have l: "solve_household_ss_loop interp par r w sl it h = Inl TooManyIterations"
        using True by (subst solve_household_ss_loop.simps) (simp add: s nc)
      have "\<not> solve_converged interp par r w sl k h" if "it + int k \<le> max_iter_solve par" for k
      proof -
        from that True have "k = 0" by simp
        with nc c0 show ?thesis by simp
      qed
      with l show ?thesis by blast
    next
      case False
      have l: "solve_household_ss_loop interp par r w sl it h
                 = solve_household_ss_loop interp par r w sl (it + 1) h1"
        using False by (subst solve_household_ss_loop.simps) (simp add: s nc)
      from False have le: "it + 1 \<le> max_iter_solve par" by simp
      from "1.IH" [OF s(1) s(3) nc False s(2) le]
      show ?thesis
      proof
        assume "\<exists>k hk h'. it + 1 + int k \<le> max_iter_solve par
            \<and> solve_converged interp par r w sl k h1
            \<and> (\<forall>j < k. \<not> solve_converged interp par r w sl j h1)
            \<and> solve_iterate interp par r w sl k h1 = Inr hk
            \<and> ?step hk = Inr h'
            \<and> solve_household_ss_loop interp par r w sl (it + 1) h1 = Inr (it + 1 + int k, h')"
        then obtain k hk h' where k: "it + 1 + int k \<le> max_iter_solve par"
          "solve_converged interp par r w sl k h1"
          "\<forall>j < k. \<not> solve_converged interp par r w sl j h1"
          "solve_iterate interp par r w sl k h1 = Inr hk" "?step hk = Inr h'"
          "solve_household_ss_loop interp par r w sl (it + 1) h1 = Inr (it + 1 + int k, h')"
          by blast
        have early: "\<not> solve_converged interp par r w sl j h" if "j < Suc k" for j
        proof (cases j)
          case 0
          with nc c0 show ?thesis by simp
        next
          case (Suc j')
          with that k(3) show ?thesis by (simp add: cS)
        qed
        have "it + int (Suc k) \<le> max_iter_solve par
            \<and> solve_converged interp par r w sl (Suc k) h
            \<and> (\<forall>j < Suc k. \<not> solve_converged interp par r w sl j h)
            \<and> solve_iterate interp par r w sl (Suc k) h = Inr hk
            \<and> ?step hk = Inr h'
            \<and> solve_household_ss_loop interp par r w sl it h = Inr (it + int (Suc k), h')"
          using k early by (simp add: cS l s(1) add.commute add.left_commute)
        then show ?thesis by blast
      next
        assume a: "(\<forall>k. it + 1 + int k \<le> max_iter_solve par \<longrightarrow> \<not> solve_converged interp par r w sl k h1)
            \<and> solve_household_ss_loop interp par r w sl (it + 1) h1 = Inl TooManyIterations"
        have "\<not> solve_converged interp par r w sl k h" if "it + int k \<le> max_iter_solve par" for k
        proof (cases k)
          case 0
          with nc c0 show ?thesis by simp
        next
          case (Suc k')
          with that a show ?thesis by (simp add: cS)
        qed
        with a l show ?thesis by simp
      qed
    qed
  qed
qed

lemma simulate_wf_step:
  assumes "simulate_wf par sm e_trans_T D"
  shows "\<exists>Dnew d. simulate par sm e_trans_T D = Inr Dnew \<and> simulate_wf par sm e_trans_T Dnew
           \<and> max_abs_diff Dnew D = Inr d"
proof -
  from assms have n: "0 < Ne par" and k: "0 < Na par"
    and D: "shape (Ne par) (Na par) D" and sw: "shape (Ne par) (Na par) (sim_w sm)"
    and si: "shape (Ne par) (Na par) (sim_i sm)"
    and ix: "list_all (list_all (\<lambda>i. 0 \<le> i \<and> i + 1 < int (Na par))) (sim_i sm)"
    and T: "shape (Ne par) (Ne par) e_trans_T"
    by (simp_all add: simulate_wf_def)
  have idx: "0 \<le> sim_i sm ! e ! ia \<and> sim_i sm ! e ! ia + 1 < int (Na par)"
    if "e < Ne par" "ia < Na par" for e ia
    using ix si that by (simp add: list_all_length shape_length shape_nth)
  from sc_inv_all [OF D sw si, of False] idx
  obtain Dn where Dn: "foldM (\<lambda>i_e. foldM (\<lambda>i_a. simulate_cell sm D i_e i_a) [0..<Na par])
      [0..<Ne par] (zeros_like D) = Inr Dn" "shape (Ne par) (Na par) Dn" by auto
  let ?C = "map (\<lambda>row. map (\<lambda>j. \<Sum>l = 0..<Ne par. row ! l * Dn ! l ! j) [0..<Na par]) e_trans_T"
  have r: "simulate par sm e_trans_T D = Inr ?C"
    by (simp add: simulate_def Dn(1) matmul_result [OF T Dn(2) n])
  have C: "shape (Ne par) (Na par) ?C"
    using T by (simp add: shape_def list_all_iff)
  have wf: "simulate_wf par sm e_trans_T ?C"
    using assms C by (simp add: simulate_wf_def)
  from max_abs_diff_Inr [OF C D n k] obtain d where "max_abs_diff ?C D = Inr d" by blast
  with r wf show ?thesis by blast
qed

lemma simulate_loop_char:
  assumes "simulate_wf par sm e_trans_T D" and "it \<le> max_iter_simulate par"
  shows "(\<exists>k Dk. it + int k \<le> max_iter_simulate par
            \<and> simulate_converged par sm e_trans_T k D
            \<and> (\<forall>j < k. \<not> simulate_converged par sm e_trans_T j D)
            \<and> simulate_iterate par sm e_trans_T k D = Inr Dk
            \<and> simulate_ss_loop par sm e_trans_T it D = Inr (it + int k, Dk))
         \<or> ((\<forall>k. it + int k \<le> max_iter_simulate par \<longrightarrow> \<not> simulate_converged par sm e_trans_T k D)
            \<and> simulate_ss_loop par sm e_trans_T it D = Inl TooManyIterations)"
  using assms
proof (induction par sm e_trans_T it D rule: simulate_ss_loop.induct)
  case (1 par sm e_trans_T it D)
  from simulate_wf_step [OF "1.prems"(1)]
  obtain D1 d where s: "simulate par sm e_trans_T D = Inr D1" "simulate_wf par sm e_trans_T D1"
    "max_abs_diff D1 D = Inr d" by blast
  have c0: "simulate_converged par sm e_trans_T 0 D = (d < simulate_tol par)"
    by (simp add: simulate_converged_def s)
  have cS: "simulate_converged par sm e_trans_T (Suc k) D = simulate_converged par sm e_trans_T k D1" for k
    by (simp add: simulate_converged_def s)
  show ?case
  proof (cases "d < simulate_tol par")
    case True
    have "simulate_ss_loop par sm e_trans_T it D = Inr (it, D)"
      by (subst simulate_ss_loop.simps) (simp add: s True)
    with True c0 "1.prems"(2) have
      "it + int 0 \<le> max_iter_simulate par \<and> simulate_converged par sm e_trans_T 0 D
        \<and> (\<forall>j < 0. \<not> simulate_converged par sm e_trans_T j D)
        \<and> simulate_iterate par sm e_trans_T 0 D = Inr D
        \<and> simulate_ss_loop par sm e_trans_T it D = Inr (it + int 0, D)" by simp
    then show ?thesis by blast
  next
    case False
    note nc = False
    show ?thesis
    proof (cases "it + 1 > max_iter_simulate par")
      case True
      have l: "simulate_ss_loop par sm e_trans_T it D = Inl TooManyIterations"
        using True by (subst simulate_ss_loop.simps) (simp add: s nc)
      have "\<not> simulate_converged par sm e_trans_T k D" if "it + int k \<le> max_iter_simulate par" for k
      proof -
        from that True have "k = 0" by simp
        with nc c0 show ?thesis by simp
      qed
      with l show ?thesis by blast
    next
      case False
      have l: "simulate_ss_loop par sm e_trans_T it D = simulate_ss_loop par sm e_trans_T (it + 1) D1"
        using False by (subst simulate_ss_loop.simps) (simp add: s nc)
      from False have le: "it + 1 \<le> max_iter_simulate par" by simp
      from "1.IH" [OF s(1) s(3) nc False s(2) le]
      show ?thesis
      proof
        assume "\<exists>k Dk. it + 1 + int k \<le> max_iter_simulate par
            \<and> simulate_converged par sm e_trans_T k D1
            \<and> (\<forall>j < k. \<not> simulate_converged par sm e_trans_T j D1)
            \<and> simulate_iterate par sm e_trans_T k D1 = Inr Dk
            \<and> simulate_ss_loop par sm e_trans_T (it + 1) D1 = Inr (it + 1 + int k, Dk)"
        then obtain k Dk where k: "it + 1 + int k \<le> max_iter_simulate par"
          "simulate_converged par sm e_trans_T k D1"
          "\<forall>j < k. \<not> simulate_converged par sm e_trans_T j D1"
          "simulate_iterate par sm e_trans_T k D1 = Inr Dk"
          "simulate_ss_loop par sm e_trans_T (it + 1) D1 = Inr (it + 1 + int k, Dk)"
          by blast
        have early: "\<not> simulate_converged par sm e_trans_T j D" if "j < Suc k" for j
        proof (cases j)
          case 0
          with nc c0 show ?thesis by simp
        next
          case (Suc j')
          with that k(3) show ?thesis by (simp add: cS)
        qed
        have "it + int (Suc k) \<le> max_iter_simulate par
            \<and> simulate_converged par sm e_trans_T (Suc k) D
            \<and> (\<forall>j < Suc k. \<not> simulate_converged par sm e_trans_T j D)
            \<and> simulate_iterate par sm e_trans_T (Suc k) D = Inr Dk
            \<and> simulate_ss_loop par sm e_trans_T it D = Inr (it + int (Suc k), Dk)"
          using k early by (simp add: cS l s(1) add.commute add.left_commute)
        then show ?thesis by blast
      next
        assume a: "(\<forall>k. it + 1 + int k \<le> max_iter_simulate par \<longrightarrow> \<not> simulate_converged par sm e_trans_T k D1)
            \<and> simulate_ss_loop par sm e_trans_T (it + 1) D1 = Inl TooManyIterations"
        have "\<not> simulate_converged par sm e_trans_T k D" if "it + int k \<le> max_iter_simulate par" for k
        proof (cases k)
          case 0
          with nc c0 show ?thesis by simp
        next
          case (Suc k')
          with that a show ?thesis by (simp add: cS)
        qed
        with a l show ?thesis by simp
      qed
    qed
  qed
qed

text \<open>
  C3.  Count the applications of the step from 0, as the counter \<open>it\<close> does.  On
  well-formed arrays, each of the two loops (\<open>solve_household_ss\<close> iterating
  \<open>time_iteration\<close>, \<open>simulate_ss\<close> iterating \<open>simulate\<close>) raises its exception if and only
  if no application numbered at most \<open>max_iter\<close> meets the tolerance; it raises nothing
  else; and when the first application to meet the tolerance has a number
  \<open>k \<le> max_iter\<close>, the loop returns normally with \<open>it = k\<close>.
\<close>

theorem fixed_point_loops:
  assumes "solve_wf par sl h" and "0 \<le> max_iter_solve par"
    and "simulate_wf par sm e_trans_T D" and "0 \<le> max_iter_simulate par"
  shows "((solve_household_ss_loop interp par r w sl 0 h = Inl TooManyIterations)
            = (\<forall>k. int k \<le> max_iter_solve par \<longrightarrow> \<not> solve_converged interp par r w sl k h))
       \<and> (\<forall>e. solve_household_ss_loop interp par r w sl 0 h = Inl e \<longrightarrow> e = TooManyIterations)
       \<and> (\<forall>k. int k \<le> max_iter_solve par \<and> solve_converged interp par r w sl k h
               \<and> (\<forall>j < k. \<not> solve_converged interp par r w sl j h)
             \<longrightarrow> (\<exists>h'. solve_household_ss_loop interp par r w sl 0 h = Inr (int k, h')))
       \<and> ((simulate_ss_loop par sm e_trans_T 0 D = Inl TooManyIterations)
            = (\<forall>k. int k \<le> max_iter_simulate par \<longrightarrow> \<not> simulate_converged par sm e_trans_T k D))
       \<and> (\<forall>e. simulate_ss_loop par sm e_trans_T 0 D = Inl e \<longrightarrow> e = TooManyIterations)
       \<and> (\<forall>k. int k \<le> max_iter_simulate par \<and> simulate_converged par sm e_trans_T k D
               \<and> (\<forall>j < k. \<not> simulate_converged par sm e_trans_T j D)
             \<longrightarrow> (\<exists>D'. simulate_ss_loop par sm e_trans_T 0 D = Inr (int k, D')
                      \<and> simulate_iterate par sm e_trans_T k D = Inr D'))"
proof -
  note A = solve_loop_char [OF assms(1), of 0 interp r w, simplified, OF assms(2)]
  note B = simulate_loop_char [OF assms(3), of 0, simplified, OF assms(4)]
  have 1: "(solve_household_ss_loop interp par r w sl 0 h = Inl TooManyIterations)
            = (\<forall>k. int k \<le> max_iter_solve par \<longrightarrow> \<not> solve_converged interp par r w sl k h)"
    using A by auto
  have 2: "\<forall>e. solve_household_ss_loop interp par r w sl 0 h = Inl e \<longrightarrow> e = TooManyIterations"
    using A by auto
  have 3: "\<exists>h'. solve_household_ss_loop interp par r w sl 0 h = Inr (int k, h')"
    if k: "int k \<le> max_iter_solve par" "solve_converged interp par r w sl k h"
      "\<forall>j < k. \<not> solve_converged interp par r w sl j h" for k
  proof -
    from A k obtain k' h' where k': "solve_converged interp par r w sl k' h"
      "\<forall>j < k'. \<not> solve_converged interp par r w sl j h"
      "solve_household_ss_loop interp par r w sl 0 h = Inr (int k', h')" by blast
    from k(2,3) k'(1,2) have "k' = k" by (meson linorder_neqE_nat)
    with k'(3) show ?thesis by blast
  qed
  have 4: "(simulate_ss_loop par sm e_trans_T 0 D = Inl TooManyIterations)
            = (\<forall>k. int k \<le> max_iter_simulate par \<longrightarrow> \<not> simulate_converged par sm e_trans_T k D)"
    using B by auto
  have 5: "\<forall>e. simulate_ss_loop par sm e_trans_T 0 D = Inl e \<longrightarrow> e = TooManyIterations"
    using B by auto
  have 6: "\<exists>D'. simulate_ss_loop par sm e_trans_T 0 D = Inr (int k, D')
                      \<and> simulate_iterate par sm e_trans_T k D = Inr D'"
    if k: "int k \<le> max_iter_simulate par" "simulate_converged par sm e_trans_T k D"
      "\<forall>j < k. \<not> simulate_converged par sm e_trans_T j D" for k
  proof -
    from B k obtain k' D' where k': "simulate_converged par sm e_trans_T k' D"
      "\<forall>j < k'. \<not> simulate_converged par sm e_trans_T j D"
      "simulate_iterate par sm e_trans_T k' D = Inr D'"
      "simulate_ss_loop par sm e_trans_T 0 D = Inr (int k', D')" by blast
    from k(2,3) k'(1,2) have "k' = k" by (meson linorder_neqE_nat)
    with k'(3,4) show ?thesis by blast
  qed
  from 1 2 3 4 5 6 show ?thesis by blast
qed

lemma time_iteration_par_cong:
  assumes "sigma p = sigma q" "beta p = beta q" "Ne p = Ne q" "a_grid p = a_grid q"
    "e_trans p = e_trans q"
  shows "time_iteration interp p r w Va_p Va a c m h = time_iteration interp q r w Va_p Va a c m h"
proof -
  have eq: "egm_row interp p r mu Va a c m = egm_row interp q r mu Va a c m" for mu
    by (intro ext) (simp only: egm_row_def assms)
  show ?thesis unfolding time_iteration_def assms eq by (rule refl)
qed

lemma time_iteration_toy_in_place:
  "time_iteration interp_1d par_toy (1 / 20) 1 1 1 2 3 4 (store_toy(1 := store_toy 0))
     = Inr (store_toy(1 := store_toy 0, 2 := [[0, - 39 / 100, 9 / 20]], 3 := [[1, 61 / 25, 29 / 5]],
              1 := [[21 / 20, 105 / 244, 21 / 116]]))"
proof -
  let ?h = "store_toy(1 := store_toy 0)"
  have sel: "?h 1 = [[5 / 19, 5 / 38, 5 / 76]]" "?h 4 = [[1, 41 / 20, 25 / 4]]"
    by (simp_all add: store_toy_sel)
  have wf: "egm_wf par_toy 1 1 2 3 4 ?h"
    by (simp add: egm_wf_def par_toy_sel store_toy_sel shape_def)
  show ?thesis
    by (simp only: time_iteration_wf [OF wf] sel egm_assets_toy egm_consumption_toy egm_Va_toy)
qed

lemma solve_residual_toy:
  "max_abs_diff [[0, - 39 / 100, 9 / 20]] [[0, 0, 0]] = Inr (9 / 20)"
  by (simp add: max_abs_diff_def np_max_def)

theorem fixed_point_loops_witness:
  "solve_wf par_capped sol_toy (store_toy(1 := store_toy 0)) \<and> 0 \<le> max_iter_solve par_capped
   \<and> simulate_wf par_capped sim_toy [[1]] [[1 / 2, 1 / 4, 1 / 4]] \<and> 0 \<le> max_iter_simulate par_capped
   \<and> solve_household_ss_loop interp_1d par_capped (1 / 20) 1 sol_toy 0 (store_toy(1 := store_toy 0))
        = Inl TooManyIterations
   \<and> simulate_ss_loop par_capped sim_toy [[1]] 0 [[1 / 2, 1 / 4, 1 / 4]] = Inl TooManyIterations
   \<and> (\<exists>h'. solve_household_ss_loop interp_1d par_loose (1 / 20) 1 sol_toy 0 (store_toy(1 := store_toy 0))
        = Inr (0, h'))
   \<and> simulate_ss_loop par_loose sim_toy [[1]] 0 [[1 / 2, 1 / 4, 1 / 4]] = Inr (0, [[1 / 2, 1 / 4, 1 / 4]])"
proof -
  let ?h = "store_toy(1 := store_toy 0)"
  let ?D = "[[1 / 2, 1 / 4, 1 / 4 :: real]]"
  have wfc: "solve_wf par_capped sol_toy ?h" "0 \<le> max_iter_solve par_capped"
    "simulate_wf par_capped sim_toy [[1]] ?D" "0 \<le> max_iter_simulate par_capped"
    by (simp_all add: solve_wf_def egm_wf_def simulate_wf_def par_capped_def par_toy_def sol_toy_def
        sim_toy_def store_toy_sel shape_def)
  have wfl: "solve_wf par_loose sol_toy ?h" "0 \<le> max_iter_solve par_loose"
    "simulate_wf par_loose sim_toy [[1]] ?D" "0 \<le> max_iter_simulate par_loose"
    by (simp_all add: solve_wf_def egm_wf_def simulate_wf_def par_loose_def par_toy_def sol_toy_def
        sim_toy_def store_toy_sel shape_def)
  have tc: "time_iteration interp_1d par_capped (1 / 20) 1 1 1 2 3 4 ?h
      = time_iteration interp_1d par_toy (1 / 20) 1 1 1 2 3 4 ?h"
    by (rule time_iteration_par_cong) (simp_all add: par_capped_def)
  have tl: "time_iteration interp_1d par_loose (1 / 20) 1 1 1 2 3 4 ?h
      = time_iteration interp_1d par_toy (1 / 20) 1 1 1 2 3 4 ?h"
    by (rule time_iteration_par_cong) (simp_all add: par_loose_def)
  let ?h1 = "store_toy(1 := store_toy 0, 2 := [[0, - 39 / 100, 9 / 20]], 3 := [[1, 61 / 25, 29 / 5]],
              1 := [[21 / 20, 105 / 244, 21 / 116]])"
  have stc: "time_iteration interp_1d par_capped (1 / 20) 1 (sol_Va sol_toy) (sol_Va sol_toy)
      (sol_a sol_toy) (sol_c sol_toy) (sol_m sol_toy) ?h = Inr ?h1"
    by (simp only: sol_toy_def sol.select_convs tc time_iteration_toy_in_place)
  have stl: "time_iteration interp_1d par_loose (1 / 20) 1 (sol_Va sol_toy) (sol_Va sol_toy)
      (sol_a sol_toy) (sol_c sol_toy) (sol_m sol_toy) ?h = Inr ?h1"
    by (simp only: sol_toy_def sol.select_convs tl time_iteration_toy_in_place)
  have res: "max_abs_diff (?h1 (sol_a sol_toy)) (?h (sol_a sol_toy)) = Inr (9 / 20)"
    using solve_residual_toy by (simp add: sol_toy_def store_toy_sel)
  have tols: "solve_tol par_capped = 1 / 10 ^ 10" "solve_tol par_loose = 1"
    by (simp_all add: par_capped_def par_loose_def par_toy_def)
  have "solve_converged interp_1d par_capped (1 / 20) 1 sol_toy 0 ?h = (9 / 20 < solve_tol par_capped)"
    by (simp only: solve_converged_def solve_iterate.simps sum.case stc res)
  then have sc: "\<not> solve_converged interp_1d par_capped (1 / 20) 1 sol_toy 0 ?h"
    by (simp add: tols)
  have "solve_converged interp_1d par_loose (1 / 20) 1 sol_toy 0 ?h = (9 / 20 < solve_tol par_loose)"
    by (simp only: solve_converged_def solve_iterate.simps sum.case stl res)
  then have sl: "solve_converged interp_1d par_loose (1 / 20) 1 sol_toy 0 ?h"
    by (simp add: tols)
  have mc: "\<not> simulate_converged par_capped sim_toy [[1]] 0 ?D"
    by code_simp
  have ml: "simulate_converged par_loose sim_toy [[1]] 0 ?D"
    by code_simp
  have k0: "k = 0" if "int k \<le> 0" for k using that by simp
  note C = fixed_point_loops [OF wfc, of interp_1d "1 / 20" 1]
  note L = fixed_point_loops [OF wfl, of interp_1d "1 / 20" 1]
  have 1: "solve_household_ss_loop interp_1d par_capped (1 / 20) 1 sol_toy 0 ?h = Inl TooManyIterations"
    using C sc k0 by (simp add: par_capped_def)
  have 2: "simulate_ss_loop par_capped sim_toy [[1]] 0 ?D = Inl TooManyIterations"
    using C mc k0 by (simp add: par_capped_def)
  from L sl wfl(2) have 3: "\<exists>h'. solve_household_ss_loop interp_1d par_loose (1 / 20) 1 sol_toy 0 ?h = Inr (0, h')"
    by (metis not_less_zero of_nat_0)
  from L ml wfl(4) have "\<exists>D'. simulate_ss_loop par_loose sim_toy [[1]] 0 ?D = Inr (int 0, D')
       \<and> simulate_iterate par_loose sim_toy [[1]] 0 ?D = Inr D'"
    by (metis not_less_zero of_nat_0)
  then have 4: "simulate_ss_loop par_loose sim_toy [[1]] 0 ?D = Inr (0, ?D)" by simp
  from wfc 1 2 3 4 show ?thesis by blast
qed

end
